theory Spec2Isabelle
  imports Main "HOL-Library.AList" "HOL-Library.Char_ord" "HOL-Library.List_Lexorder"
    "HOL-Library.Word"
begin

section \<open>Sender-key records (src/Signal/Group/sender-key-record.ts)\<close>

text \<open>
  A \<open>Uint8Array\<close> is a list of bytes. A JavaScript \<open>number\<close> that holds a key id or
  an iteration count is an \<open>int\<close>: the checks \<open>typeof x !== 'number'\<close> of the source
  are always false on such a value and leave no branch in the model.
\<close>

type_synonym bytes = "8 word list"

text \<open>The members \<open>{ iteration, seed }\<close> of \<open>senderChainKey\<close> and of \<open>senderMessageKeys\<close>.\<close>

record SenderChainKeyStructure =
  iteration :: int
  seed :: bytes

text \<open>The member \<open>senderSigningKey\<close>: \<open>{ public, private? }\<close>.\<close>

record SenderSigningKeyStructure =
  public_key :: bytes
  private_key :: "bytes option"

text \<open>
  \<open>interface SenderKeyStateStructure\<close>. The interface declares \<open>senderChainKey\<close> as
  always there, but a structure read back from storage may lack it; the validity check
  of the record guards against that (\<open>if (!chainKey) return false\<close> under a
  \<open>try\<close>/\<open>catch\<close>), so the model keeps the member optional.
\<close>

record SenderKeyStateStructure =
  senderKeyId :: int
  senderChainKey :: "SenderChainKeyStructure option"
  senderSigningKey :: SenderSigningKeyStructure
  senderMessageKeys :: "SenderChainKeyStructure list"

text \<open>
  Modelled from the spec: the class \<open>SenderKeyState\<close> of \<open>./sender-key-state\<close>, which
  the record imports and which is not among the sources. The spec describes a state as
  the structure above (key id, chain key, signing key, message keys) and the serialized
  record as the array of these structures; so a state is the structure it carries,
  \<open>getStructure\<close> returns it, the constructor called with a structure keeps it, and the
  constructor called with the separate values builds the structure from them with no
  message keys.
\<close>

datatype SenderKeyState = SenderKeyState (getStructure: SenderKeyStateStructure)

definition getKeyId :: "SenderKeyState \<Rightarrow> int" where
  "getKeyId st = senderKeyId (getStructure st)"

definition getSenderChainKey :: "SenderKeyState \<Rightarrow> SenderChainKeyStructure option" where
  "getSenderChainKey st = senderChainKey (getStructure st)"

definition getSigningKeyPublic :: "SenderKeyState \<Rightarrow> bytes" where
  "getSigningKeyPublic st = public_key (senderSigningKey (getStructure st))"

text \<open>
  \<open>new SenderKeyState(id, iteration, chainKey, signatureKeyPair, signatureKeyPublic)\<close>:
  the key pair, when given, supplies both halves of the signing key; otherwise the public
  key alone is stored.
\<close>

definition newSenderKeyState ::
  "int \<Rightarrow> int \<Rightarrow> bytes \<Rightarrow> (bytes \<times> bytes) option \<Rightarrow> bytes option \<Rightarrow> SenderKeyState" where
  "newSenderKeyState keyId iter chainKey keyPair signatureKeyPublic =
     SenderKeyState
       \<lparr> senderKeyId = keyId,
         senderChainKey = Some \<lparr> iteration = iter, seed = chainKey \<rparr>,
         senderSigningKey =
           (case keyPair of
              Some (pub, priv) \<Rightarrow> \<lparr> public_key = pub, private_key = Some priv \<rparr>
            | None \<Rightarrow>
                \<lparr> public_key = (case signatureKeyPublic of Some pub \<Rightarrow> pub | None \<Rightarrow> []),
                  private_key = None \<rparr>),
         senderMessageKeys = [] \<rparr>"

text \<open>\<open>class SenderKeyRecord\<close>: the private array \<open>senderKeyStates\<close>, newest state last.\<close>

record SenderKeyRecord =
  senderKeyStates :: "SenderKeyState list"

definition MAX_STATES :: nat where
  "MAX_STATES = 5"

text \<open>The constructor pushes one state for every structure of the optional argument.\<close>

definition newSenderKeyRecord :: "SenderKeyStateStructure list option \<Rightarrow> SenderKeyRecord" where
  "newSenderKeyRecord serialized =
     (case serialized of
        None \<Rightarrow> \<lparr> senderKeyStates = [] \<rparr>
      | Some structures \<Rightarrow> \<lparr> senderKeyStates = map SenderKeyState structures \<rparr>)"

definition isEmpty :: "SenderKeyRecord \<Rightarrow> bool" where
  "isEmpty r = (length (senderKeyStates r) = 0)"

text \<open>
  \<open>isValidSenderKeyState\<close>: the key id is positive, the chain key is there with a
  non-negative iteration, the public signing key is not empty. An exception raised by
  an accessor is caught and gives \<open>false\<close>; the one accessor that can raise is the chain
  key of a structure without one, which is the \<open>None\<close> case here.
\<close>

definition isValidSenderKeyState :: "SenderKeyState \<Rightarrow> bool" where
  "isValidSenderKeyState st =
     (if getKeyId st \<le> 0 then False
      else case getSenderChainKey st of
        None \<Rightarrow> False
      | Some chainKey \<Rightarrow>
          if iteration chainKey < 0 then False
          else if length (getSigningKeyPublic st) = 0 then False
          else True)"

text \<open>
  The backward loop \<open>for (let i = length - 1; i >= 0; i--)\<close> of \<open>getSenderKeyState\<close>;
  the second argument is \<open>i + 1\<close>.
\<close>

fun scanBackward :: "SenderKeyState list \<Rightarrow> nat \<Rightarrow> SenderKeyState option" where
  "scanBackward states 0 = None"
| "scanBackward states (Suc i) =
     (if isValidSenderKeyState (states ! i) then Some (states ! i)
      else scanBackward states i)"

text \<open>
  \<open>getSenderKeyState(keyId?)\<close> returns the state found, if any, and the record as the
  call leaves it (the record is emptied when no state of a non-empty record is valid).
\<close>

definition getSenderKeyState ::
  "int option \<Rightarrow> SenderKeyRecord \<Rightarrow> SenderKeyState option \<times> SenderKeyRecord" where
  "getSenderKeyState keyId r =
     (if keyId = None \<and> length (senderKeyStates r) \<noteq> 0 then
        (let recentState = last (senderKeyStates r) in
         if isValidSenderKeyState recentState then (Some recentState, r)
         else case scanBackward (senderKeyStates r) (length (senderKeyStates r)) of
           Some st \<Rightarrow> (Some st, r)
         | None \<Rightarrow> (None, r\<lparr>senderKeyStates := []\<rparr>))
      else
        (case find (\<lambda>st. Some (getKeyId st) = keyId) (senderKeyStates r) of
           Some st \<Rightarrow> if isValidSenderKeyState st then (Some st, r) else (None, r)
         | None \<Rightarrow> (None, r)))"

text \<open>\<open>addSenderKeyState\<close>: push, then \<open>shift()\<close> when more than \<open>MAX_STATES\<close> are held.\<close>

definition addSenderKeyState ::
  "int \<Rightarrow> int \<Rightarrow> bytes \<Rightarrow> bytes \<Rightarrow> SenderKeyRecord \<Rightarrow> SenderKeyRecord" where
  "addSenderKeyState keyId iter chainKey signatureKey r =
     (let pushed = senderKeyStates r
            @ [newSenderKeyState keyId iter chainKey None (Some signatureKey)]
      in r\<lparr>senderKeyStates := (if length pushed > MAX_STATES then tl pushed else pushed)\<rparr>)"

text \<open>\<open>setSenderKeyState\<close>: the array is emptied and one state with the key pair pushed.\<close>

definition setSenderKeyState ::
  "int \<Rightarrow> int \<Rightarrow> bytes \<Rightarrow> bytes \<times> bytes \<Rightarrow> SenderKeyRecord \<Rightarrow> SenderKeyRecord" where
  "setSenderKeyState keyId iter chainKey keyPair r =
     r\<lparr>senderKeyStates := [newSenderKeyState keyId iter chainKey (Some keyPair) None]\<rparr>"

text \<open>A sequence of \<open>addSenderKeyState\<close> calls, each given by its four arguments.\<close>

fun addSenderKeyStates ::
  "(int \<times> int \<times> bytes \<times> bytes) list \<Rightarrow> SenderKeyRecord \<Rightarrow> SenderKeyRecord" where
  "addSenderKeyStates [] r = r"
| "addSenderKeyStates ((keyId, iter, chainKey, signatureKey) # calls) r =
     addSenderKeyStates calls (addSenderKeyState keyId iter chainKey signatureKey r)"

definition serialize :: "SenderKeyRecord \<Rightarrow> SenderKeyStateStructure list" where
  "serialize r = map getStructure (senderKeyStates r)"

text \<open>
  The argument of \<open>deserialize\<close>: JSON text, the UTF-8 bytes of JSON text, or the array
  of structures itself.
\<close>

datatype SerializedData =
  DataString string
| DataBytes bytes
| DataStructures "SenderKeyStateStructure list"

text \<open>What a call can throw.\<close>

datatype js_error =
  SyntaxError
| TypeError
| Boom string
| Error string
| Rejected string

text \<open>
  \<open>JSON.parse(text, BufferJSON.reviver)\<close> and the UTF-8 decoding of a buffer are not
  part of the sources: they are parameters. The parser fails with an error when the text
  is not JSON, and gives \<open>None\<close> for a value the constructor treats as no argument.
\<close>

definition deserialize ::
  "(string \<Rightarrow> js_error + SenderKeyStateStructure list option) \<Rightarrow> (bytes \<Rightarrow> string) \<Rightarrow>
   SerializedData \<Rightarrow> js_error + SenderKeyRecord" where
  "deserialize parseJSON utf8 data =
     (case data of
        DataString text \<Rightarrow> map_sum id newSenderKeyRecord (parseJSON text)
      | DataBytes raw \<Rightarrow> map_sum id newSenderKeyRecord (parseJSON (utf8 raw))
      | DataStructures parsed \<Rightarrow> Inr (newSenderKeyRecord (Some parsed)))"

text \<open>A well-formed structure with the given key id, for the examples below.\<close>

definition exampleStructure :: "int \<Rightarrow> SenderKeyStateStructure" where
  "exampleStructure keyId =
     \<lparr> senderKeyId = keyId,
       senderChainKey = Some \<lparr> iteration = 0, seed = [1] \<rparr>,
       senderSigningKey = \<lparr> public_key = [2], private_key = None \<rparr>,
       senderMessageKeys = [] \<rparr>"

section \<open>JavaScript values, stanzas and the socket's state (src/Socket/messages-send.ts)\<close>

text \<open>
  A value as \<open>JSON.parse\<close> gives it or as a protobuf message object holds it: the
  message passed to the relay and the sender-key data the cleanup decodes are inspected
  member by member, with JavaScript's truthiness. \<open>undefined\<close> is the \<open>None\<close> of an
  optional value.
\<close>

datatype js_value =
  JNull
| JBool bool
| JNumber int
| JString string
| JBytes bytes
| JArray "js_value list"
| JObject "(string \<times> js_value) list"

fun truthy :: "js_value option \<Rightarrow> bool" where
  "truthy None = False"
| "truthy (Some JNull) = False"
| "truthy (Some (JBool b)) = b"
| "truthy (Some (JNumber n)) = (n \<noteq> 0)"
| "truthy (Some (JString s)) = (s \<noteq> [])"
| "truthy (Some (JBytes b)) = True"
| "truthy (Some (JArray xs)) = True"
| "truthy (Some (JObject members)) = True"

text \<open>
  Reading a member \<open>v.name\<close>. Every read in the sources is of a name that only an
  object's own members can carry, and is guarded by the truthiness of \<open>v\<close>, so a read
  from anything but an object gives \<open>undefined\<close>.
\<close>

fun getMember :: "js_value option \<Rightarrow> string \<Rightarrow> js_value option" where
  "getMember (Some (JObject members)) name = map_of members name"
| "getMember v name = None"

text \<open>A string that may be \<open>undefined\<close>, and its truthiness.\<close>

definition truthyString :: "string option \<Rightarrow> bool" where
  "truthyString s = (case s of None \<Rightarrow> False | Some text \<Rightarrow> text \<noteq> [])"

text \<open>
  \<open>BinaryNode\<close>: a tag, the attributes in the order they were set (an attribute can be
  set to \<open>undefined\<close>), and a content that is absent, bytes or child nodes.
\<close>

datatype BinaryNode =
  BinaryNode (tag: string) (attrs: "(string \<times> string option) list") (content: NodeContent)
and NodeContent =
  NoContent
| BytesContent bytes
| NodesContent "BinaryNode list"

text \<open>\<open>node.attrs.name = value\<close> and the read \<open>node.attrs.name\<close>.\<close>

definition setAttr ::
  "string \<Rightarrow> string option \<Rightarrow> (string \<times> string option) list \<Rightarrow> (string \<times> string option) list" where
  "setAttr name v as = AList.update name v as"

definition getAttr :: "(string \<times> string option) list \<Rightarrow> string \<Rightarrow> string option option" where
  "getAttr as name = map_of as name"

text \<open>\<open>JidWithDevice\<close> and, with the server, the result of \<open>jidDecode\<close>.\<close>

record JidWithDevice =
  user :: string
  device :: "nat option"

record FullJid = JidWithDevice +
  server :: string

text \<open>
  The helpers of \<open>../WABinary\<close> the socket calls. They are not among the sources and
  are parameters of the model.
\<close>

record WABinary =
  jidDecode :: "string \<Rightarrow> FullJid option"
  jidEncode :: "string \<Rightarrow> string \<Rightarrow> nat option \<Rightarrow> string"
  jidNormalizedUser :: "string \<Rightarrow> string"
  isJidUser :: "string \<Rightarrow> bool"
  isJidGroup :: "string \<Rightarrow> bool"
  areJidsSameUser :: "string \<Rightarrow> string \<Rightarrow> bool"
  S_WHATSAPP_NET :: string

text \<open>
  The \<open>signalRepository\<close> capability. Each call either fails or gives its result;
  \<open>parseAndInjectE2ESessions\<close> gives the sessions it installs, by Signal address.
\<close>

record SignalRepository =
  jidToSignalProtocolAddress :: "string \<Rightarrow> string"
  parseAndInjectE2ESessions :: "BinaryNode \<Rightarrow> js_error + (string \<times> bytes) list"
  encryptMessage :: "string \<Rightarrow> bytes \<Rightarrow> js_error + (string \<times> bytes)"
  encryptGroupMessage :: "string \<Rightarrow> bytes \<Rightarrow> string \<Rightarrow> js_error + (bytes \<times> bytes)"

text \<open>\<open>GroupMetadata\<close>, as far as the relay reads it: the ids of the participants.\<close>

record GroupMetadata =
  participants :: "string list option"

text \<open>
  What the socket is built from and what it calls: the configuration, the credentials,
  the transport (\<open>query\<close>, \<open>sendNode\<close>), the group and device queries, the message
  utilities, the clock and the conversion \<open>+text\<close> of a string to a number (\<open>None\<close>
  for \<open>NaN\<close>). A call that can throw gives a \<open>js_error\<close>.
\<close>

record SocketEnv =
  waBinary :: WABinary
  signalRepository :: SignalRepository
  credsMe :: "(string \<times> string option) option"
  participantBlockSizeConfig :: "nat option"
  cachedGroupMetadata :: "(string \<Rightarrow> js_error + GroupMetadata option) option"
  groupMetadata :: "string \<Rightarrow> js_error + GroupMetadata"
  executeUSyncQuery :: "string list \<Rightarrow> bool \<Rightarrow> js_error + JidWithDevice list option"
  query :: "BinaryNode \<Rightarrow> js_error + BinaryNode"
  sendNode :: "BinaryNode \<Rightarrow> js_error + unit"
  patchMessageBeforeSending :: "js_value \<Rightarrow> string list \<Rightarrow> js_error + js_value"
  encodeWAMessage :: "js_value \<Rightarrow> bytes"
  normalizeMessageContent :: "js_value \<Rightarrow> js_value option"
  encodeSignedDeviceIdentity :: bytes
  generateMessageIDV2 :: string
  unixTimestampSeconds :: nat
  toNumber :: "string option \<Rightarrow> int option"

text \<open>
  What the socket does to the outside, in the order it does it: the key store's
  transactions, reads and writes (category and key), the stanzas it queries with and
  sends, the device queries, and the encryptions it asks the Signal repository for.
\<close>

datatype event =
  TransactionBegin
| TransactionCommit
| TransactionRollback
| KeysGet string "string list"
| KeysSet string string
| Query BinaryNode
| USyncQuery "string list"
| SendNode BinaryNode
| EncryptMessage string bytes
| EncryptGroupMessage string bytes

text \<open>\<open>MediaConnInfo\<close> and the state of a promise of one.\<close>

record MediaConnInfo =
  hosts :: "(string option \<times> int option) list"
  auth :: "string option"
  ttl :: "int option"
  fetchDate :: int

datatype promise_state =
  Pending int
| Fulfilled MediaConnInfo
| Failed js_error

text \<open>
  The state the socket's closures share (\<open>userDevicesCache\<close>, \<open>mediaTypeCache\<close>,
  \<open>verifiedSessionsCache\<close>, \<open>pendingMediaQueries\<close>, \<open>mediaConn\<close>,
  \<open>lastMediaConnRefresh\<close>), the promises created so far, the two categories of the key
  store the socket reads and writes, and the trace of events.

  Modelled from the spec: the key store (\<open>authState.keys\<close>) is not among the sources.
  By the spec it is a key-value store by category, \<open>set\<close> writes or (with \<open>null\<close>)
  deletes, a transaction buffers the writes of its body and flushes them on success, and
  reads inside a transaction see the writes not yet flushed.
\<close>

record SocketState =
  userDevicesCache :: "(string \<times> JidWithDevice list) list"
  mediaTypeCache :: "(string list \<times> string) list"
  verifiedSessionsCache :: "string list"
  pendingMediaQueries :: "nat option"
  mediaConn :: "nat option"
  lastMediaConnRefresh :: int
  promises :: "promise_state list"
  sessionStore :: "(string \<times> bytes) list"
  senderKeyMemoryStore :: "(string \<times> (string \<times> bool) list) list"
  trace :: "event list"

text \<open>
  An asynchronous function of the socket: from a state to a result, or the error it
  throws, and the state it leaves. The state may carry more than the socket's (the
  variables of a running \<open>relayMessage\<close>, below). \<open>andThen\<close> is \<open>await\<close>
  followed by the rest of the function: an error ends the function there.
\<close>

type_synonym ('x, 'a) action =
  "'x SocketState_scheme \<Rightarrow> (js_error + 'a) \<times> 'x SocketState_scheme"

definition succeed :: "'a \<Rightarrow> ('x, 'a) action" where
  "succeed v s = (Inr v, s)"

definition throw :: "js_error \<Rightarrow> ('x, 'a) action" where
  "throw e s = (Inl e, s)"

definition andThen :: "('x, 'a) action \<Rightarrow> ('a \<Rightarrow> ('x, 'b) action) \<Rightarrow> ('x, 'b) action" where
  "andThen m k s = (case m s of (Inl e, s') \<Rightarrow> (Inl e, s') | (Inr v, s') \<Rightarrow> k v s')"

text \<open>
  \<open>Promise.all\<close>: every promise runs to its end, whatever becomes of the others, and
  the whole is rejected when one of them is. The model runs them one after the other in
  the order of the array, which is one of the orders the event loop can take, and gives
  the error of the first one that failed.
\<close>

fun allOf :: "('x, 'a) action list \<Rightarrow> ('x, 'a list) action" where
  "allOf [] s = (Inr [], s)"
| "allOf (m # ms) s =
     (case m s of
        (r, s') \<Rightarrow>
          (case allOf ms s' of
             (rs, s'') \<Rightarrow>
               (case r of
                  Inl e \<Rightarrow> Inl e
                | Inr v \<Rightarrow> (case rs of Inl e \<Rightarrow> Inl e | Inr vs \<Rightarrow> Inr (v # vs)),
                s'')))"

definition both :: "('x, 'a) action \<Rightarrow> ('x, 'b) action \<Rightarrow> ('x, 'a \<times> 'b) action" where
  "both m1 m2 s =
     (case m1 s of
        (r1, s1) \<Rightarrow>
          (case m2 s1 of
             (r2, s2) \<Rightarrow>
               (case r1 of
                  Inl e \<Rightarrow> Inl e
                | Inr a \<Rightarrow> (case r2 of Inl e \<Rightarrow> Inl e | Inr b \<Rightarrow> Inr (a, b)),
                s2)))"

text \<open>The result of a call of the environment, as an action.\<close>

definition fromResult :: "js_error + 'a \<Rightarrow> ('x, 'a) action" where
  "fromResult r s = (r, s)"

definition emit :: "event \<Rightarrow> ('x, unit) action" where
  "emit ev s = (Inr (), s\<lparr>trace := trace s @ [ev]\<rparr>)"

text \<open>\<open>await sendNode(node)\<close> and \<open>await query(node)\<close>.\<close>

definition doSendNode :: "SocketEnv \<Rightarrow> BinaryNode \<Rightarrow> ('x, unit) action" where
  "doSendNode env node = andThen (emit (SendNode node)) (\<lambda>_. fromResult (sendNode env node))"

definition doQuery :: "SocketEnv \<Rightarrow> BinaryNode \<Rightarrow> ('x, BinaryNode) action" where
  "doQuery env node = andThen (emit (Query node)) (\<lambda>_. fromResult (query env node))"

text \<open>\<open>Number.prototype.toString()\<close> of a natural number: its decimal digits.\<close>

function numberToString :: "nat \<Rightarrow> string" where
  "numberToString n =
     (if n < 10 then [char_of (48 + n)]
      else numberToString (n div 10) @ [char_of (48 + n mod 10)])"
  by pat_completeness auto
termination
  by (relation "measure id") auto

declare numberToString.simps [simp del]

section \<open>Receipts\<close>

text \<open>
  \<open>sendReceipt(jid, participant, messageIds, type)\<close>. The receipt type is one of
  the strings of \<open>MessageReceiptType\<close> or \<open>undefined\<close>. The function returns at once
  on an empty list of ids; otherwise it builds the node step by step and hands it to
  \<open>sendNode\<close>.
\<close>

definition receiptNode ::
  "SocketEnv \<Rightarrow> string \<Rightarrow> string option \<Rightarrow> string \<Rightarrow> string list \<Rightarrow> string option \<Rightarrow> BinaryNode" where
  "receiptNode env jid participant firstId otherIds type =
     (let attrs0 = [(''id'', Some firstId)];
          attrs1 = (if type = Some ''read'' \<or> type = Some ''read-self''
                    then setAttr ''t'' (Some (numberToString (unixTimestampSeconds env))) attrs0
                    else attrs0);
          attrs2 = (if type = Some ''sender'' \<and> isJidUser (waBinary env) jid
                    then setAttr ''to'' participant (setAttr ''recipient'' (Some jid) attrs1)
                    else (if truthyString participant
                          then setAttr ''participant'' participant (setAttr ''to'' (Some jid) attrs1)
                          else setAttr ''to'' (Some jid) attrs1));
          attrs3 = (if truthyString type then setAttr ''type'' type attrs2 else attrs2);
          remainingMessageIds = (if length (firstId # otherIds) > 1 then Some otherIds else None)
      in BinaryNode ''receipt'' attrs3
           (case remainingMessageIds of
              None \<Rightarrow> NoContent
            | Some ids \<Rightarrow>
                if length ids \<noteq> 0
                then NodesContent
                  [BinaryNode ''list'' []
                     (NodesContent (map (\<lambda>i. BinaryNode ''item'' [(''id'', Some i)] NoContent) ids))]
                else NoContent))"

definition sendReceipt ::
  "SocketEnv \<Rightarrow> string \<Rightarrow> string option \<Rightarrow> string list \<Rightarrow> string option \<Rightarrow> ('x, unit) action" where
  "sendReceipt env jid participant messageIds type =
     (case messageIds of
        [] \<Rightarrow> succeed ()
      | firstId # otherIds \<Rightarrow>
          doSendNode env (receiptNode env jid participant firstId otherIds type))"

section \<open>The media connection\<close>

definition MEDIA_CONN_CHECK_INTERVAL :: int where
  "MEDIA_CONN_CHECK_INTERVAL = 60000"

text \<open>The query of \<open>refreshMediaConn\<close>: \<open>iq\<close>, \<open>set\<close>, \<open>w:m\<close>, with a \<open>media_conn\<close> child.\<close>

definition mediaConnQuery :: "SocketEnv \<Rightarrow> BinaryNode" where
  "mediaConnQuery env =
     BinaryNode ''iq''
       [(''type'', Some ''set''), (''xmlns'', Some ''w:m''),
        (''to'', Some (S_WHATSAPP_NET (waBinary env)))]
       (NodesContent [BinaryNode ''media_conn'' [] NoContent])"

text \<open>
  \<open>refreshMediaConn(forceGet)\<close> called when \<open>Date.now()\<close> is \<open>now\<close>. A promise is
  its index in \<open>promises\<close>. The call returns the pending promise if there is one;
  otherwise, when no media connection was ever asked for, or \<open>forceGet\<close> is set, or the
  last refresh is more than the check interval ago, it starts the query (the \<open>iq\<close> goes
  out before the call returns), creates the promise of its outcome, records it as pending
  and as \<open>mediaConn\<close>, and returns it; otherwise it returns \<open>mediaConn\<close>. The new
  promise remembers \<open>now\<close>, which its body stores on success.
\<close>

definition refreshMediaConn ::
  "SocketEnv \<Rightarrow> bool \<Rightarrow> int \<Rightarrow> 'x SocketState_scheme \<Rightarrow> nat option \<times> 'x SocketState_scheme" where
  "refreshMediaConn env forceGet now s =
     (case pendingMediaQueries s of
        Some pending \<Rightarrow> (Some pending, s)
      | None \<Rightarrow>
          if mediaConn s = None \<or> forceGet
             \<or> now - lastMediaConnRefresh s > MEDIA_CONN_CHECK_INTERVAL
          then
            (let queryPromise = length (promises s) in
             (Some queryPromise,
              s\<lparr>promises := promises s @ [Pending now],
                trace := trace s @ [Query (mediaConnQuery env)],
                pendingMediaQueries := Some queryPromise,
                mediaConn := Some queryPromise\<rparr>))
          else (mediaConn s, s))"

text \<open>
  Modelled from the spec: \<open>getBinaryNodeChild\<close> and \<open>getBinaryNodeChildren\<close> of
  \<open>../WABinary\<close>, not among the sources: the first child, and all children, of a node
  with a given tag (the response has a \<open>media_conn\<close> child with \<open>host\<close> children).
\<close>

definition getBinaryNodeChildren :: "BinaryNode \<Rightarrow> string \<Rightarrow> BinaryNode list" where
  "getBinaryNodeChildren node childTag =
     (case content node of
        NodesContent children \<Rightarrow> filter (\<lambda>c. tag c = childTag) children
      | _ \<Rightarrow> [])"

definition getBinaryNodeChild :: "BinaryNode \<Rightarrow> string \<Rightarrow> BinaryNode option" where
  "getBinaryNodeChild node childTag =
     (case content node of
        NodesContent children \<Rightarrow> find (\<lambda>c. tag c = childTag) children
      | _ \<Rightarrow> None)"

definition attrOf :: "BinaryNode \<Rightarrow> string \<Rightarrow> string option" where
  "attrOf node name = (case getAttr (attrs node) name of Some v \<Rightarrow> v | None \<Rightarrow> None)"

text \<open>What the body of the query promise makes of the response, at time \<open>date\<close>.\<close>

definition parseMediaConn :: "SocketEnv \<Rightarrow> int \<Rightarrow> BinaryNode \<Rightarrow> js_error + MediaConnInfo" where
  "parseMediaConn env date result =
     (case getBinaryNodeChild result ''media_conn'' of
        None \<Rightarrow> Inl (Error ''Media connection node not found'')
      | Some mediaConnNode \<Rightarrow>
          Inr \<lparr> hosts = map (\<lambda>h. (attrOf h ''hostname'',
                                 toNumber env (attrOf h ''maxContentLengthBytes'')))
                         (getBinaryNodeChildren mediaConnNode ''host''),
                auth = attrOf mediaConnNode ''auth'',
                ttl = toNumber env (attrOf mediaConnNode ''ttl''),
                fetchDate = date \<rparr>)"

text \<open>
  The rest of the body of the promise \<open>p\<close>, run when the query answers: on success the
  time of the call that started it becomes \<open>lastMediaConnRefresh\<close>; in every case the
  pending entry is deleted (\<open>finally\<close>) and the promise settles.
\<close>

definition settleMediaConn ::
  "SocketEnv \<Rightarrow> int \<Rightarrow> nat \<Rightarrow> 'x SocketState_scheme \<Rightarrow> 'x SocketState_scheme" where
  "settleMediaConn env date p s =
     (if p < length (promises s) then
        (case promises s ! p of
           Pending now \<Rightarrow>
             (case query env (mediaConnQuery env) of
                Inl e \<Rightarrow> s\<lparr>pendingMediaQueries := None, promises := (promises s)[p := Failed e]\<rparr>
              | Inr result \<Rightarrow>
                  (case parseMediaConn env date result of
                     Inl e \<Rightarrow>
                       s\<lparr>pendingMediaQueries := None, promises := (promises s)[p := Failed e]\<rparr>
                   | Inr node \<Rightarrow>
                       s\<lparr>lastMediaConnRefresh := now, pendingMediaQueries := None,
                         promises := (promises s)[p := Fulfilled node]\<rparr>))
         | _ \<Rightarrow> s)
      else s)"

text \<open>
  Calls of \<open>refreshMediaConn\<close> one after another, each with its \<open>forceGet\<close> and its
  time, with nothing settling in between: the promises returned and the state left.
\<close>

fun refreshMediaConnCalls ::
  "SocketEnv \<Rightarrow> (bool \<times> int) list \<Rightarrow> 'x SocketState_scheme \<Rightarrow>
   nat option list \<times> 'x SocketState_scheme" where
  "refreshMediaConnCalls env [] s = ([], s)"
| "refreshMediaConnCalls env ((forceGet, now) # calls) s =
     (case refreshMediaConn env forceGet now s of
        (p, s') \<Rightarrow>
          (case refreshMediaConnCalls env calls s' of (ps, s'') \<Rightarrow> (p # ps, s'')))"

section \<open>Session assertion\<close>

text \<open>\<open>[...new Set(jids)]\<close>: the first occurrence of every element, in order.\<close>

definition uniqueInOrder :: "'a list \<Rightarrow> 'a list" where
  "uniqueInOrder xs = rev (remdups (rev xs))"

text \<open>\<open>set.add(x)\<close> on a \<open>Set\<close> held as the list of its elements in insertion order.\<close>

definition setAdd :: "'a \<Rightarrow> 'a list \<Rightarrow> 'a list" where
  "setAdd x xs = (if x \<in> set xs then xs else xs @ [x])"

text \<open>
  \<open>await authState.keys.get('session', addrs)\<close>: the stored sessions at these
  addresses.
\<close>

definition keysGetSessions :: "string list \<Rightarrow> ('x, string \<Rightarrow> bytes option) action" where
  "keysGetSessions addrs =
     andThen (emit (KeysGet ''session'' addrs))
       (\<lambda>_ s. (Inr (\<lambda>signalId. if signalId \<in> set addrs then map_of (sessionStore s) signalId
                                else None), s))"

text \<open>
  The loop over the jids after the batch read: a jid without a session needs a fetch,
  a jid with one is added to \<open>verifiedSessionsCache\<close>.
\<close>

fun partitionBySession ::
  "SocketEnv \<Rightarrow> (string \<Rightarrow> bytes option) \<Rightarrow> string list \<Rightarrow> string list \<Rightarrow>
   'x SocketState_scheme \<Rightarrow> string list \<times> 'x SocketState_scheme" where
  "partitionBySession env sessions [] jidsRequiringFetch s = (jidsRequiringFetch, s)"
| "partitionBySession env sessions (jid # jids) jidsRequiringFetch s =
     (case sessions (jidToSignalProtocolAddress (signalRepository env) jid) of
        None \<Rightarrow> partitionBySession env sessions jids (jidsRequiringFetch @ [jid]) s
      | Some session \<Rightarrow>
          partitionBySession env sessions jids jidsRequiringFetch
            (s\<lparr>verifiedSessionsCache := setAdd jid (verifiedSessionsCache s)\<rparr>))"

text \<open>The prekey query: \<open>iq\<close>, \<open>get\<close>, \<open>encrypt\<close>, a \<open>key\<close> with one \<open>user\<close> per jid.\<close>

definition prekeyQuery :: "SocketEnv \<Rightarrow> string list \<Rightarrow> BinaryNode" where
  "prekeyQuery env jidsRequiringFetch =
     BinaryNode ''iq''
       [(''xmlns'', Some ''encrypt''), (''type'', Some ''get''),
        (''to'', Some (S_WHATSAPP_NET (waBinary env)))]
       (NodesContent
          [BinaryNode ''key'' []
             (NodesContent
                (map (\<lambda>jid. BinaryNode ''user'' [(''jid'', Some jid)] NoContent)
                   jidsRequiringFetch))])"

text \<open>
  Modelled from the spec: \<open>parseAndInjectE2ESessions\<close> of \<open>../Utils\<close>, not among the
  sources: each bundle of the response is installed through the Signal repository, which
  stores the new session under its address.
\<close>

fun storeSessions ::
  "(string \<times> bytes) list \<Rightarrow> 'x SocketState_scheme \<Rightarrow> 'x SocketState_scheme" where
  "storeSessions [] s = s"
| "storeSessions ((signalId, session) # rest) s =
     storeSessions rest
       (s\<lparr>sessionStore := AList.update signalId session (sessionStore s),
          trace := trace s @ [KeysSet ''session'' signalId]\<rparr>)"

definition injectE2ESessions :: "SocketEnv \<Rightarrow> BinaryNode \<Rightarrow> ('x, unit) action" where
  "injectE2ESessions env result =
     andThen (fromResult (parseAndInjectE2ESessions (signalRepository env) result))
       (\<lambda>installed s. (Inr (), storeSessions installed s))"

definition addVerified :: "string list \<Rightarrow> ('x, unit) action" where
  "addVerified jids s =
     (Inr (),
      s\<lparr>verifiedSessionsCache := foldl (\<lambda>c j. setAdd j c) (verifiedSessionsCache s) jids\<rparr>)"

text \<open>
  \<open>assertSessions(jids, force)\<close>: whether new sessions were fetched. The result is
  \<open>false\<close> at once for no jids, and, without \<open>force\<close>, when every jid is in
  \<open>verifiedSessionsCache\<close>.
\<close>

definition assertSessions :: "SocketEnv \<Rightarrow> string list \<Rightarrow> bool \<Rightarrow> ('x, bool) action" where
  "assertSessions env jids force s =
     (if length jids = 0 then (Inr False, s)
      else
        (let unique = uniqueInOrder jids;
             remaining = (if \<not> force
                          then filter (\<lambda>jid. jid \<notin> set (verifiedSessionsCache s)) unique
                          else unique)
         in if \<not> force \<and> length remaining = 0 then (Inr False, s)
            else
              andThen
                (if force then succeed remaining
                 else andThen
                   (keysGetSessions
                      (map (jidToSignalProtocolAddress (signalRepository env)) remaining))
                   (\<lambda>sessions s'. case partitionBySession env sessions remaining [] s' of
                      (jidsRequiringFetch, s'') \<Rightarrow> (Inr jidsRequiringFetch, s'')))
                (\<lambda>jidsRequiringFetch.
                   if length jidsRequiringFetch \<noteq> 0 then
                     andThen (doQuery env (prekeyQuery env jidsRequiringFetch))
                       (\<lambda>result. andThen (injectE2ESessions env result)
                          (\<lambda>_. andThen (addVerified jidsRequiringFetch)
                             (\<lambda>_. succeed True)))
                   else succeed False)
                s))"

text \<open>
  The hourly timer of the socket: each of the two caches is cleared when it has grown
  past its bound.
\<close>

definition periodicCleanup :: "'x SocketState_scheme \<Rightarrow> 'x SocketState_scheme" where
  "periodicCleanup s =
     s\<lparr>mediaTypeCache := (if length (mediaTypeCache s) > 500 then [] else mediaTypeCache s),
       verifiedSessionsCache :=
         (if length (verifiedSessionsCache s) > 1000 then [] else verifiedSessionsCache s)\<rparr>"

section \<open>Cleanup of stored sender keys (src/Utils/sender-key-cleanup.ts)\<close>

text \<open>
  \<open>JSON.parse\<close>, \<open>JSON.stringify\<close> and the UTF-8 coding of \<open>Buffer\<close> are
  parameters. \<open>JSON.parse\<close> is called without a reviver here, so a buffer inside the
  text comes back as the object it was written as.
\<close>

record JsonCodec =
  jsonParse :: "string \<Rightarrow> js_error + js_value"
  jsonStringify :: "js_value \<Rightarrow> string"
  utf8Decode :: "bytes \<Rightarrow> string"
  utf8Encode :: "string \<Rightarrow> bytes"

text \<open>\<open>xs.slice(start)\<close>: a negative \<open>start\<close> counts from the end.\<close>

definition jsSlice :: "int \<Rightarrow> 'a list \<Rightarrow> 'a list" where
  "jsSlice start xs =
     (if start < 0 then drop (length xs - nat (- start)) xs else drop (nat start) xs)"

text \<open>\<open>typeof v === 'number'\<close>.\<close>

fun isNumber :: "js_value option \<Rightarrow> bool" where
  "isNumber (Some (JNumber n)) = True"
| "isNumber v = False"

text \<open>The filter of \<open>cleanupCorruptedSenderKeys\<close> on the states of one key.\<close>

definition janitorValidState :: "js_value \<Rightarrow> bool" where
  "janitorValidState state =
     (truthy (Some state)
      \<and> isNumber (getMember (Some state) ''senderKeyId'')
      \<and> truthy (getMember (Some state) ''senderChainKey'')
      \<and> isNumber (getMember (getMember (Some state) ''senderChainKey'') ''iteration'')
      \<and> truthy (getMember (getMember (Some state) ''senderChainKey'') ''seed'')
      \<and> truthy (getMember (Some state) ''senderSigningKey'')
      \<and> truthy (getMember (getMember (Some state) ''senderSigningKey'') ''public''))"

text \<open>The decoding of the stored value of one key: a string, bytes, or the value as it is.\<close>

definition decodeKeyData :: "JsonCodec \<Rightarrow> js_value \<Rightarrow> js_error + js_value" where
  "decodeKeyData codec keyData =
     (case keyData of
        JString text \<Rightarrow> jsonParse codec text
      | JBytes raw \<Rightarrow> jsonParse codec (utf8Decode codec raw)
      | _ \<Rightarrow> Inr keyData)"

text \<open>\<open>Buffer.from(JSON.stringify(states), 'utf-8')\<close>.\<close>

definition encodeStates :: "JsonCodec \<Rightarrow> js_value list \<Rightarrow> js_value" where
  "encodeStates codec states = JBytes (utf8Encode codec (jsonStringify codec (JArray states)))"

text \<open>
  The body of the loop for one key with a truthy value, applied to the updates collected
  so far. An update is \<open>None\<close> for \<open>null\<close> (the key is to be deleted) or the value
  to write. The result also says whether the body set \<open>hasChanges\<close>.
\<close>

definition cleanupKey ::
  "JsonCodec \<Rightarrow> int \<Rightarrow> string \<Rightarrow> js_value \<Rightarrow> (string \<times> js_value option) list \<Rightarrow>
   (string \<times> js_value option) list \<times> bool" where
  "cleanupKey codec maxStatesPerGroup keyId keyData keysToUpdate =
     (case decodeKeyData codec keyData of
        Inl e \<Rightarrow> (AList.update keyId None keysToUpdate, True)
      | Inr parsed \<Rightarrow>
          (case parsed of
             JArray states \<Rightarrow>
               if length states = 0 then (AList.update keyId None keysToUpdate, True)
               else
                 (let trimmedUpdate =
                        (if int (length states) > maxStatesPerGroup
                         then (AList.update keyId
                                 (Some (encodeStates codec (jsSlice (- maxStatesPerGroup) states)))
                                 keysToUpdate, True)
                         else (keysToUpdate, False));
                      validStates = filter janitorValidState states
                  in if length validStates \<noteq> length states
                     then (if length validStates = 0
                           then AList.update keyId None (fst trimmedUpdate)
                           else AList.update keyId (Some (encodeStates codec validStates))
                                  (fst trimmedUpdate),
                           True)
                     else trimmedUpdate)
           | _ \<Rightarrow> (AList.update keyId None keysToUpdate, True)))"

text \<open>
  The update the body records for the key it runs on, seen on its own: nothing, a
  deletion, or a value to write. It depends on the key's value alone.
\<close>

definition keyUpdate :: "JsonCodec \<Rightarrow> int \<Rightarrow> js_value \<Rightarrow> js_value option option" where
  "keyUpdate codec maxStates keyData =
     map_of (fst (cleanupKey codec maxStates ''k'' keyData [])) ''k''"

text \<open>The loop over \<open>Object.entries(allSenderKeys)\<close>; a falsy value is skipped.\<close>

fun cleanupKeys ::
  "JsonCodec \<Rightarrow> int \<Rightarrow> (string \<times> js_value) list \<Rightarrow> (string \<times> js_value option) list \<times> bool \<Rightarrow>
   (string \<times> js_value option) list \<times> bool" where
  "cleanupKeys codec maxStatesPerGroup [] acc = acc"
| "cleanupKeys codec maxStatesPerGroup ((keyId, keyData) # rest) (keysToUpdate, hasChanges) =
     (if truthy (Some keyData)
      then (case cleanupKey codec maxStatesPerGroup keyId keyData keysToUpdate of
              (keysToUpdate', changed) \<Rightarrow>
                cleanupKeys codec maxStatesPerGroup rest (keysToUpdate', hasChanges \<or> changed))
      else cleanupKeys codec maxStatesPerGroup rest (keysToUpdate, hasChanges))"

text \<open>
  \<open>cleanupCorruptedSenderKeys\<close>, given the entries of the \<open>sender-key\<close> category:
  the patch it passes to \<open>authState.keys.set\<close>, or \<open>None\<close> when it writes nothing.
\<close>

definition cleanupCorruptedSenderKeys ::
  "JsonCodec \<Rightarrow> int \<Rightarrow> (string \<times> js_value) list \<Rightarrow> (string \<times> js_value option) list option" where
  "cleanupCorruptedSenderKeys codec maxStatesPerGroup allSenderKeys =
     (case cleanupKeys codec maxStatesPerGroup allSenderKeys ([], False) of
        (keysToUpdate, hasChanges) \<Rightarrow> if hasChanges then Some keysToUpdate else None)"

text \<open>
  Modelled from the spec: \<open>authState.keys.set\<close> on one category of the key store, which
  is not among the sources: a patch writes the values it gives and deletes the keys it
  maps to \<open>null\<close>.
\<close>

fun keysSet :: "(string \<times> js_value option) list \<Rightarrow> (string \<times> js_value) list \<Rightarrow> (string \<times> js_value) list" where
  "keysSet [] store = store"
| "keysSet ((key, None) # patch) store = keysSet patch (AList.delete key store)"
| "keysSet ((key, Some v) # patch) store = keysSet patch (AList.update key v store)"

text \<open>
  The options of \<open>cleanupSenderKeys\<close> with their defaults, and the key pass of it: it
  runs only in aggressive mode, on the \<open>sender-key\<close> entries, and leaves the store as
  the patch makes it.
\<close>

record SenderKeyCleanupOptions =
  maxMemoryAge :: "int option"
  maxStatesPerGroup :: "int option"
  aggressive :: "bool option"

definition cleanupSenderKeysKeyPass ::
  "JsonCodec \<Rightarrow> SenderKeyCleanupOptions \<Rightarrow> (string \<times> js_value) list \<Rightarrow> (string \<times> js_value) list" where
  "cleanupSenderKeysKeyPass codec options senderKeyStore =
     (let maxStates = (case maxStatesPerGroup options of None \<Rightarrow> 5 | Some m \<Rightarrow> m);
          isAggressive = (case aggressive options of None \<Rightarrow> False | Some a \<Rightarrow> a)
      in if isAggressive
         then (case cleanupCorruptedSenderKeys codec maxStates senderKeyStore of
                 None \<Rightarrow> senderKeyStore
               | Some keysToUpdate \<Rightarrow> keysSet keysToUpdate senderKeyStore)
         else senderKeyStore)"

text \<open>
  The validity of a state in the spec's words, read on a decoded state: the key id is
  above zero, the chain key is there with an iteration of at least zero, and the public
  signing key is not empty (a buffer written as JSON is an object with a \<open>data\<close>
  member). It is compared below with the filter the cleanup applies.
\<close>

fun positiveNumber :: "js_value option \<Rightarrow> bool" where
  "positiveNumber (Some (JNumber n)) = (0 < n)"
| "positiveNumber v = False"

fun nonNegativeNumber :: "js_value option \<Rightarrow> bool" where
  "nonNegativeNumber (Some (JNumber n)) = (0 \<le> n)"
| "nonNegativeNumber v = False"

fun nonEmptyBinary :: "js_value option \<Rightarrow> bool" where
  "nonEmptyBinary (Some (JBytes b)) = (b \<noteq> [])"
| "nonEmptyBinary (Some (JString text)) = (text \<noteq> [])"
| "nonEmptyBinary (Some (JObject members)) =
     (case map_of members ''data'' of
        Some (JArray xs) \<Rightarrow> xs \<noteq> []
      | Some (JString text) \<Rightarrow> text \<noteq> []
      | _ \<Rightarrow> False)"
| "nonEmptyBinary v = False"

definition specValidState :: "js_value \<Rightarrow> bool" where
  "specValidState state =
     (positiveNumber (getMember (Some state) ''senderKeyId'')
      \<and> nonNegativeNumber (getMember (getMember (Some state) ''senderChainKey'') ''iteration'')
      \<and> nonEmptyBinary (getMember (getMember (Some state) ''senderSigningKey'') ''public''))"

section \<open>The relay\<close>

definition DEFAULT_PARTICIPANT_BLOCK_SIZE :: nat where
  "DEFAULT_PARTICIPANT_BLOCK_SIZE = 200"

text \<open>\<open>config.participantBlockSize || DEFAULT_PARTICIPANT_BLOCK_SIZE\<close>.\<close>

definition participantBlockSize :: "SocketEnv \<Rightarrow> nat" where
  "participantBlockSize env =
     (case participantBlockSizeConfig env of
        Some n \<Rightarrow> if n \<noteq> 0 then n else DEFAULT_PARTICIPANT_BLOCK_SIZE
      | None \<Rightarrow> DEFAULT_PARTICIPANT_BLOCK_SIZE)"

text \<open>
  \<open>MessageRelayOptions\<close>; of the participant override the relay reads the jid only.
\<close>

record MessageRelayOptions =
  messageId :: "string option"
  participant :: "string option"
  additionalAttributes :: "(string \<times> string option) list option"
  additionalNodes :: "BinaryNode list option"
  useUserDevicesCache :: "bool option"
  useCachedGroupMetadata :: "bool option"
  statusJidList :: "string list option"

definition getMessageType :: "js_value \<Rightarrow> string" where
  "getMessageType message =
     (if truthy (getMember (Some message) ''pollCreationMessage'')
         \<or> truthy (getMember (Some message) ''pollCreationMessageV2'')
         \<or> truthy (getMember (Some message) ''pollCreationMessageV3'')
      then ''poll'' else ''text'')"

definition getMediaType :: "js_value \<Rightarrow> string option" where
  "getMediaType message =
     (let has = (\<lambda>name. truthy (getMember (Some message) name)) in
      if has ''imageMessage'' then Some ''image''
      else if has ''videoMessage'' then
        (if truthy (getMember (getMember (Some message) ''videoMessage'') ''gifPlayback'')
         then Some ''gif'' else Some ''video'')
      else if has ''audioMessage'' then
        (if truthy (getMember (getMember (Some message) ''audioMessage'') ''ptt'')
         then Some ''ptt'' else Some ''audio'')
      else if has ''documentMessage'' then Some ''document''
      else if has ''stickerMessage'' then Some ''sticker''
      else if has ''contactMessage'' then Some ''vcard''
      else if has ''contactsArrayMessage'' then Some ''contact_array''
      else if has ''liveLocationMessage'' then Some ''livelocation''
      else if has ''listMessage'' then Some ''list''
      else if has ''listResponseMessage'' then Some ''list_response''
      else if has ''buttonsResponseMessage'' then Some ''buttons_response''
      else if has ''orderMessage'' then Some ''order''
      else if has ''productMessage'' then Some ''product''
      else if has ''interactiveResponseMessage'' then Some ''native_flow_response''
      else if has ''groupInviteMessage'' then Some ''url''
      else None)"

text \<open>
  The variables of one running \<open>relayMessage\<close> that its dispatches share and change:
  \<open>extraAttrs\<close>, \<open>shouldIncludeDeviceIdentity\<close>, and the \<open>senderKeyMap\<close> the
  blocks of a split send mark their devices in.
\<close>

record RelayState = SocketState +
  extraAttrs :: "(string \<times> string option) list"
  shouldIncludeDeviceIdentity :: bool
  senderKeyMap :: "(string \<times> bool) list"

text \<open>What \<open>relayMessage\<close> fixes before it dispatches, and its dispatches read.\<close>

record RelayContext =
  ctxJid :: string
  ctxMessage :: js_value
  meId :: string
  isGroup :: bool
  isStatus :: bool
  isLid :: bool
  msgId :: string
  destinationJid :: string
  ctxUseCachedGroupMetadata :: bool
  ctxParticipant :: "string option"
  ctxAdditionalAttributes :: "(string \<times> string option) list option"
  ctxAdditionalNodes :: "BinaryNode list option"

text \<open>\<open>{ ...attrs, ...added }\<close>: the members of \<open>added\<close> are set in their order.\<close>

definition spreadAttrs ::
  "(string \<times> string option) list \<Rightarrow> (string \<times> string option) list \<Rightarrow> (string \<times> string option) list" where
  "spreadAttrs as added = foldl (\<lambda>acc (name, v). setAttr name v acc) as added"

definition emitAll :: "event list \<Rightarrow> ('x, unit) action" where
  "emitAll evs s = (Inr (), s\<lparr>trace := trace s @ evs\<rparr>)"

subsection \<open>Participant nodes\<close>

text \<open>
  The encryptions of \<open>createParticipantNodes\<close> for the jids, in order: the nodes, and
  whether one of them is a \<open>pkmsg\<close>; the error of the first that fails, if one does.
\<close>

fun encryptForEach ::
  "SocketEnv \<Rightarrow> bytes \<Rightarrow> (string \<times> string option) list \<Rightarrow> string list \<Rightarrow>
   js_error + (BinaryNode list \<times> bool)" where
  "encryptForEach env data extra [] = Inr ([], False)"
| "encryptForEach env data extra (jid # jids) =
     (case encryptMessage (signalRepository env) jid data of
        Inl e \<Rightarrow> Inl e
      | Inr (type, ciphertext) \<Rightarrow>
          (case encryptForEach env data extra jids of
             Inl e \<Rightarrow> Inl e
           | Inr (nodes, includeIdentity) \<Rightarrow>
               Inr (BinaryNode ''to'' [(''jid'', Some jid)]
                      (NodesContent
                         [BinaryNode ''enc''
                            (spreadAttrs [(''v'', Some ''2''), (''type'', Some type)] extra)
                            (BytesContent ciphertext)])
                    # nodes,
                    type = ''pkmsg'' \<or> includeIdentity)))"

text \<open>
  \<open>createParticipantNodes(jids, message, extraAttrs)\<close>: nothing is patched, encoded or
  encrypted for an empty list; otherwise the message is patched and encoded once and
  every jid's encryption is asked for.
\<close>

definition createParticipantNodes ::
  "SocketEnv \<Rightarrow> string list \<Rightarrow> js_value \<Rightarrow> (string \<times> string option) list \<Rightarrow>
   ('x, BinaryNode list \<times> bool) action" where
  "createParticipantNodes env jids message extra =
     (if length jids = 0 then succeed ([], False)
      else
        andThen (fromResult (patchMessageBeforeSending env message jids)) (\<lambda>patched.
        andThen (emitAll (map (\<lambda>jid. EncryptMessage jid (encodeWAMessage env patched)) jids)) (\<lambda>_.
        fromResult (encryptForEach env (encodeWAMessage env patched) extra jids))))"

subsection \<open>Device resolution\<close>

text \<open>
  The loop of \<open>getUSyncDevices\<close> over the jids: the devices found in the cache and the
  users to fetch. A jid that does not decode, or has no user, is skipped.
\<close>

fun collectFromCache ::
  "SocketEnv \<Rightarrow> bool \<Rightarrow> (string \<times> JidWithDevice list) list \<Rightarrow> string list \<Rightarrow>
   JidWithDevice list \<times> string list \<Rightarrow> JidWithDevice list \<times> string list" where
  "collectFromCache env useCache cache [] acc = acc"
| "collectFromCache env useCache cache (jid # jids) (deviceResults, toFetch) =
     (case jidDecode (waBinary env) jid of
        None \<Rightarrow> collectFromCache env useCache cache jids (deviceResults, toFetch)
      | Some decoded \<Rightarrow>
          if user decoded = [] then collectFromCache env useCache cache jids (deviceResults, toFetch)
          else if useCache then
            (case map_of cache (user decoded) of
               Some devices \<Rightarrow>
                 collectFromCache env useCache cache jids (deviceResults @ devices, toFetch)
             | None \<Rightarrow>
                 collectFromCache env useCache cache jids
                   (deviceResults, toFetch @ [jidNormalizedUser (waBinary env) jid]))
          else collectFromCache env useCache cache jids
                 (deviceResults, toFetch @ [jidNormalizedUser (waBinary env) jid]))"

text \<open>The fetched devices are cached by user, each user with all of its devices.\<close>

definition cacheDevices ::
  "JidWithDevice list \<Rightarrow> (string \<times> JidWithDevice list) list \<Rightarrow> (string \<times> JidWithDevice list) list" where
  "cacheDevices extracted cache =
     foldl (\<lambda>c key. AList.update key (filter (\<lambda>item. user item = key) extracted) c) cache
       (uniqueInOrder (map user extracted))"

text \<open>
  \<open>getUSyncDevices(jids, useCache, ignoreZeroDevices)\<close>. The query and the extraction
  of the device jids from its result are the environment's \<open>executeUSyncQuery\<close>, which
  gives nothing when the query has no result.
\<close>

definition getUSyncDevices ::
  "SocketEnv \<Rightarrow> string list \<Rightarrow> bool \<Rightarrow> bool \<Rightarrow> ('x, JidWithDevice list) action" where
  "getUSyncDevices env jids useCache ignoreZeroDevices s =
     (if length jids = 0 then (Inr [], s)
      else
        (case collectFromCache env useCache (userDevicesCache s) (uniqueInOrder jids) ([], []) of
           (deviceResults, toFetch) \<Rightarrow>
             if length toFetch = 0 then (Inr deviceResults, s)
             else
               andThen (emit (USyncQuery toFetch)) (\<lambda>_.
               andThen (fromResult (executeUSyncQuery env toFetch ignoreZeroDevices)) (\<lambda>result s'.
                 case result of
                   None \<Rightarrow> (Inr deviceResults, s')
                 | Some extracted \<Rightarrow>
                     (Inr (deviceResults @ extracted),
                      s'\<lparr>userDevicesCache := cacheDevices extracted (userDevicesCache s')\<rparr>)))
               s))"

subsection \<open>The key store in a dispatch\<close>

text \<open>
  Modelled from the spec: \<open>authState.keys.transaction\<close>, \<open>get\<close> and \<open>set\<close> on the
  \<open>sender-key-memory\<close> category. The writes of the body of a transaction stay when
  the body succeeds and are dropped when it throws.
\<close>

definition transaction :: "('x, 'a) action \<Rightarrow> ('x, 'a) action" where
  "transaction body s =
     (case body (s\<lparr>trace := trace s @ [TransactionBegin]\<rparr>) of
        (Inr v, s') \<Rightarrow> (Inr v, s'\<lparr>trace := trace s' @ [TransactionCommit]\<rparr>)
      | (Inl e, s') \<Rightarrow>
          (Inl e,
           s'\<lparr>sessionStore := sessionStore s,
              senderKeyMemoryStore := senderKeyMemoryStore s,
              trace := trace s' @ [TransactionRollback]\<rparr>))"

text \<open>\<open>(await authState.keys.get('sender-key-memory', [jid]))[jid] || {}\<close>.\<close>

definition readSenderKeyMemory :: "string \<Rightarrow> ('x, (string \<times> bool) list) action" where
  "readSenderKeyMemory jid =
     andThen (emit (KeysGet ''sender-key-memory'' [jid]))
       (\<lambda>_ s. (Inr (case map_of (senderKeyMemoryStore s) jid of Some m \<Rightarrow> m | None \<Rightarrow> []), s))"

text \<open>\<open>await authState.keys.set({ 'sender-key-memory': { [jid]: senderKeyMap } })\<close>.\<close>

definition writeSenderKeyMemory :: "string \<Rightarrow> (string \<times> bool) list \<Rightarrow> ('x, unit) action" where
  "writeSenderKeyMemory jid memory =
     andThen (emit (KeysSet ''sender-key-memory'' jid))
       (\<lambda>_ s. (Inr (),
          s\<lparr>senderKeyMemoryStore := AList.update jid memory (senderKeyMemoryStore s)\<rparr>))"

text \<open>
  The loop that finds the devices the sender key has not gone to: a device whose jid is
  not marked in the map is added to the list and marked.
\<close>

fun markNewDevices ::
  "SocketEnv \<Rightarrow> bool \<Rightarrow> JidWithDevice list \<Rightarrow> string list \<times> (string \<times> bool) list \<Rightarrow>
   string list \<times> (string \<times> bool) list" where
  "markNewDevices env lid [] acc = acc"
| "markNewDevices env lid (d # ds) (senderKeyJids, memory) =
     (let deviceJid = jidEncode (waBinary env) (user d)
                        (if lid then ''lid'' else ''s.whatsapp.net'') (device d)
      in if map_of memory deviceJid \<noteq> Some True
         then markNewDevices env lid ds
                (senderKeyJids @ [deviceJid], AList.update deviceJid True memory)
         else markNewDevices env lid ds (senderKeyJids, memory))"

subsection \<open>Dispatch\<close>

text \<open>\<open>msgId || generateMessageIDV2(sock.user?.id)\<close>.\<close>

definition msgIdOrNew :: "SocketEnv \<Rightarrow> RelayContext \<Rightarrow> string" where
  "msgIdOrNew env ctx = (if msgId ctx \<noteq> [] then msgId ctx else generateMessageIDV2 env)"

text \<open>\<open>JSON.stringify(Object.keys(message).sort())\<close>, as the sorted list it encodes.\<close>

definition messageHash :: "js_value \<Rightarrow> string list" where
  "messageHash message =
     sort (case message of JObject members \<Rightarrow> map fst members | _ \<Rightarrow> [])"

text \<open>
  The start of the transaction's body: the media type, from the cache by the message's
  hash or else computed and cached when there is one, goes into \<open>extraAttrs\<close>, and so
  does \<open>decrypt-fail\<close> for a pin-in-chat message.
\<close>

definition stampExtraAttrs :: "SocketEnv \<Rightarrow> js_value \<Rightarrow> ('x RelayState_ext, unit) action" where
  "stampExtraAttrs env message s =
     (let cached = map_of (mediaTypeCache s) (messageHash message);
          mediaTypeValue = (case cached of Some v \<Rightarrow> Some v | None \<Rightarrow> getMediaType message);
          s1 = (case cached of
                  Some v \<Rightarrow> s
                | None \<Rightarrow>
                    (case mediaTypeValue of
                       Some v \<Rightarrow>
                         if v \<noteq> []
                         then s\<lparr>mediaTypeCache :=
                                  AList.update (messageHash message) v (mediaTypeCache s)\<rparr>
                         else s
                     | None \<Rightarrow> s));
          s2 = (if truthyString mediaTypeValue
                then s1\<lparr>extraAttrs := setAttr ''mediatype'' mediaTypeValue (extraAttrs s1)\<rparr>
                else s1);
          s3 = (if truthy (getMember (normalizeMessageContent env message) ''pinInChatMessage'')
                then s2\<lparr>extraAttrs := setAttr ''decrypt-fail'' (Some ''hide'') (extraAttrs s2)\<rparr>
                else s2)
      in (Inr (), s3))"

text \<open>
  The first of the two promises the group branch awaits together: the group's metadata,
  from the cache callback when that is allowed and gives participants, else (but for a
  status) from \<open>groupMetadata\<close>. Its value is not used.
\<close>

definition fetchGroupData :: "SocketEnv \<Rightarrow> RelayContext \<Rightarrow> ('x, unit) action" where
  "fetchGroupData env ctx =
     (let fetch = (if isStatus ctx then succeed ()
                   else andThen (fromResult (groupMetadata env (ctxJid ctx))) (\<lambda>_. succeed ()))
      in case (if \<not> isStatus ctx \<and> ctxUseCachedGroupMetadata ctx
               then cachedGroupMetadata env else None) of
           None \<Rightarrow> fetch
         | Some cached \<Rightarrow>
             andThen (fromResult (cached (ctxJid ctx))) (\<lambda>found.
               case found of
                 None \<Rightarrow> fetch
               | Some groupData \<Rightarrow>
                   if participants groupData \<noteq> None then succeed () else fetch))"

definition senderKeyMsg :: "RelayContext \<Rightarrow> bytes \<Rightarrow> js_value" where
  "senderKeyMsg ctx senderKeyDistributionMessage =
     JObject
       [(''senderKeyDistributionMessage'',
         JObject [(''axolotlSenderKeyDistributionMessage'', JBytes senderKeyDistributionMessage),
                  (''groupId'', JString (destinationJid ctx))])]"

definition meMsg :: "RelayContext \<Rightarrow> js_value" where
  "meMsg ctx =
     JObject
       [(''deviceSentMessage'',
         JObject [(''destinationJid'', JString (destinationJid ctx)),
                  (''message'', ctxMessage ctx)])]"

text \<open>
  The group or status branch of the body: the content of the stanza so far and the
  participant nodes. Participant nodes are built for the sender-key jids only, and the
  sender-key memory read at the start is written back at the end.
\<close>

definition groupDispatch ::
  "SocketEnv \<Rightarrow> RelayContext \<Rightarrow> JidWithDevice list \<Rightarrow> string list \<Rightarrow>
   ('x RelayState_ext, BinaryNode list \<times> BinaryNode list) action" where
  "groupDispatch env ctx devices senderKeyJids =
     andThen (both (fetchGroupData env ctx)
                (if \<not> isStatus ctx then readSenderKeyMemory (ctxJid ctx) else succeed []))
       (\<lambda>(groupData, memory).
     andThen (fromResult (patchMessageBeforeSending env (ctxMessage ctx)
                (map (\<lambda>d. jidEncode (waBinary env) (user d)
                             (if isLid ctx then ''lid'' else ''s.whatsapp.net'') (device d))
                   devices)))
       (\<lambda>patched.
     andThen (emit (EncryptGroupMessage (destinationJid ctx) (encodeWAMessage env patched)))
       (\<lambda>_.
     andThen (fromResult (encryptGroupMessage (signalRepository env) (destinationJid ctx)
                (encodeWAMessage env patched) (meId ctx)))
       (\<lambda>(ciphertext, senderKeyDistributionMessage).
     andThen
       (if length senderKeyJids \<noteq> 0 then
          andThen (assertSessions env senderKeyJids False) (\<lambda>_.
          andThen (\<lambda>s. createParticipantNodes env senderKeyJids
                          (senderKeyMsg ctx senderKeyDistributionMessage) (extraAttrs s) s)
            (\<lambda>(nodes, includeIdentity).
          andThen (\<lambda>s. (Inr (),
                     s\<lparr>shouldIncludeDeviceIdentity :=
                          shouldIncludeDeviceIdentity s \<or> includeIdentity\<rparr>))
            (\<lambda>_. succeed nodes)))
        else succeed [])
       (\<lambda>participantNodes.
     andThen (writeSenderKeyMemory (ctxJid ctx) memory)
       (\<lambda>_. succeed
          ([BinaryNode ''enc'' [(''v'', Some ''2''), (''type'', Some ''skmsg'')]
              (BytesContent ciphertext)],
           participantNodes)))))))"

text \<open>
  The loop of the direct branch over the devices: all jids, mine and the others'. For a
  device of mine on the \<open>lid\<close> server the user is the part of \<open>creds.me.lid\<close> before
  the colon (the device's user if that part is empty); reading it throws when the
  credentials hold no lid.
\<close>

fun classifyDevices ::
  "SocketEnv \<Rightarrow> RelayContext \<Rightarrow> string \<Rightarrow> JidWithDevice list \<Rightarrow>
   js_error + (string list \<times> string list \<times> string list)" where
  "classifyDevices env ctx meUser [] = Inr ([], [], [])"
| "classifyDevices env ctx meUser (d # ds) =
     (case (if user d = meUser \<and> isLid ctx
            then (case credsMe env of
                    Some (myId, Some lid) \<Rightarrow>
                      Inr (if takeWhile (\<lambda>c. c \<noteq> CHR '':'') lid \<noteq> []
                           then takeWhile (\<lambda>c. c \<noteq> CHR '':'') lid else user d)
                  | _ \<Rightarrow> Inl TypeError)
            else Inr (user d)) of
        Inl e \<Rightarrow> Inl e
      | Inr jidUser \<Rightarrow>
          (case classifyDevices env ctx meUser ds of
             Inl e \<Rightarrow> Inl e
           | Inr (allJids, meJids, otherJids) \<Rightarrow>
               (let deviceJid = jidEncode (waBinary env) jidUser
                                  (if isLid ctx then ''lid'' else ''s.whatsapp.net'') (device d)
                in Inr (deviceJid # allJids,
                        (if user d = meUser then deviceJid # meJids else meJids),
                        (if user d = meUser then otherJids else deviceJid # otherJids)))))"

text \<open>
  The direct branch: sessions are asserted for all device jids, then my devices get the
  message wrapped as \<open>deviceSentMessage\<close> and the others the message itself.
\<close>

definition directDispatch ::
  "SocketEnv \<Rightarrow> RelayContext \<Rightarrow> JidWithDevice list \<Rightarrow>
   ('x RelayState_ext, BinaryNode list \<times> BinaryNode list) action" where
  "directDispatch env ctx devices =
     (case jidDecode (waBinary env) (meId ctx) of
        None \<Rightarrow> throw TypeError
      | Some me \<Rightarrow>
          andThen (fromResult (classifyDevices env ctx (user me) devices))
            (\<lambda>(allJids, meJids, otherJids).
          andThen (assertSessions env allJids False) (\<lambda>_.
          andThen (\<lambda>s. allOf
                     ((if length meJids \<noteq> 0
                       then [createParticipantNodes env meJids (meMsg ctx) (extraAttrs s)]
                       else [])
                      @ (if length otherJids \<noteq> 0
                         then [createParticipantNodes env otherJids (ctxMessage ctx) (extraAttrs s)]
                         else []))
                     s)
            (\<lambda>results.
          andThen (\<lambda>s. (Inr (),
                     s\<lparr>shouldIncludeDeviceIdentity :=
                          foldl (\<lambda>acc (nodes, includeIdentity). acc \<or> includeIdentity)
                            (shouldIncludeDeviceIdentity s) results\<rparr>))
            (\<lambda>_. succeed ([], concat (map fst results)))))))"

text \<open>
  The stanza: the participant nodes (for the \<open>peer\<close> category the first node's
  \<open>enc\<close> alone), the attributes with the addressing, the device identity and the
  additional nodes.
\<close>

definition buildStanza ::
  "SocketEnv \<Rightarrow> RelayContext \<Rightarrow> BinaryNode list \<Rightarrow> BinaryNode list \<Rightarrow> bool \<Rightarrow> BinaryNode" where
  "buildStanza env ctx binaryNodeContent participantNodes includeIdentity =
     (let additional = (case ctxAdditionalAttributes ctx of Some as \<Rightarrow> as | None \<Rightarrow> []);
          content1 =
            (case participantNodes of
               [] \<Rightarrow> binaryNodeContent
             | first # others \<Rightarrow>
                 if getAttr additional ''category'' = Some (Some ''peer'')
                 then (case content first of
                         NodesContent (peerNode # rest) \<Rightarrow> binaryNodeContent @ [peerNode]
                       | _ \<Rightarrow> binaryNodeContent)
                 else binaryNodeContent
                        @ [BinaryNode ''participants'' [] (NodesContent participantNodes)]);
          attrs0 = spreadAttrs
                     [(''id'', Some (msgId ctx)),
                      (''type'', Some (getMessageType (ctxMessage ctx)))]
                     additional;
          attrs1 =
            (case ctxParticipant ctx of
               Some participantJid \<Rightarrow>
                 if isJidGroup (waBinary env) (destinationJid ctx)
                 then setAttr ''participant'' (Some participantJid)
                        (setAttr ''to'' (Some (destinationJid ctx)) attrs0)
                 else if areJidsSameUser (waBinary env) participantJid (meId ctx)
                 then setAttr ''recipient'' (Some (destinationJid ctx))
                        (setAttr ''to'' (Some participantJid) attrs0)
                 else setAttr ''to'' (Some participantJid) attrs0
             | None \<Rightarrow> setAttr ''to'' (Some (destinationJid ctx)) attrs0);
          content2 =
            (if includeIdentity
             then content1
                    @ [BinaryNode ''device-identity'' []
                         (BytesContent (encodeSignedDeviceIdentity env))]
             else content1);
          content3 =
            (case ctxAdditionalNodes ctx of
               Some nodes \<Rightarrow> if length nodes \<noteq> 0 then content2 @ nodes else content2
             | None \<Rightarrow> content2)
      in BinaryNode ''message'' attrs1 (NodesContent content3))"

text \<open>
  \<open>sendToParticipants(devices, senderKeyJids)\<close>: nothing happens for no devices;
  otherwise the whole dispatch is the body of one key-store transaction, and
  \<open>sendNode\<close> is its last step.
\<close>

definition sendToParticipants ::
  "SocketEnv \<Rightarrow> RelayContext \<Rightarrow> JidWithDevice list \<Rightarrow> string list \<Rightarrow>
   ('x RelayState_ext, string) action" where
  "sendToParticipants env ctx devices senderKeyJids =
     (if length devices = 0 then succeed (msgIdOrNew env ctx)
      else
        andThen
          (transaction
             (andThen (stampExtraAttrs env (ctxMessage ctx)) (\<lambda>_.
              andThen (if isGroup ctx \<or> isStatus ctx
                       then groupDispatch env ctx devices senderKeyJids
                       else directDispatch env ctx devices)
                (\<lambda>(binaryNodeContent, participantNodes) s.
                   doSendNode env
                     (buildStanza env ctx binaryNodeContent participantNodes
                        (shouldIncludeDeviceIdentity s))
                     s))))
          (\<lambda>_. succeed (msgIdOrNew env ctx)))"

subsection \<open>\<open>relayMessage\<close>\<close>

text \<open>The blocks of the participants: \<open>slice(i, i + n)\<close> for \<open>i\<close> in steps of the block size \<open>n\<close>.\<close>

function chunksOf :: "nat \<Rightarrow> 'a list \<Rightarrow> 'a list list" where
  "chunksOf n xs =
     (if n = 0 \<or> xs = [] then [] else take n xs # chunksOf n (drop n xs))"
  by pat_completeness auto
termination
  by (relation "measure (\<lambda>(n, xs). length xs)") auto

declare chunksOf.simps [simp del]

text \<open>
  The participants of a group send. An error of the metadata lookup is caught and
  leaves the list empty; the cache callback is used alone when it is allowed and there.
\<close>

definition groupParticipants :: "SocketEnv \<Rightarrow> string \<Rightarrow> bool \<Rightarrow> string list" where
  "groupParticipants env jid useCached =
     (case (case (if useCached then cachedGroupMetadata env else None) of
              Some cached \<Rightarrow> cached jid
            | None \<Rightarrow> map_sum id Some (groupMetadata env jid)) of
        Inl e \<Rightarrow> []
      | Inr None \<Rightarrow> []
      | Inr (Some groupData) \<Rightarrow>
          (case participants groupData of
             Some ids \<Rightarrow> if length ids \<noteq> 0 then ids else []
           | None \<Rightarrow> []))"

text \<open>
  The participants of a group or status send: the group's participants, and for a status
  the jids of \<open>statusJidList\<close>.
\<close>

definition relayParticipantsList ::
  "SocketEnv \<Rightarrow> string \<Rightarrow> MessageRelayOptions \<Rightarrow> bool \<Rightarrow> bool \<Rightarrow> string list" where
  "relayParticipantsList env jid options toGroup toStatus =
     (if toGroup
      then groupParticipants env jid (useCachedGroupMetadata options \<noteq> Some False \<and> \<not> toStatus)
      else [])
     @ (if toStatus
        then (case statusJidList options of
                Some jids \<Rightarrow> if length jids \<noteq> 0 then jids else []
              | None \<Rightarrow> [])
        else [])"


text \<open>One block of a split send.\<close>

definition sendBlock ::
  "SocketEnv \<Rightarrow> RelayContext \<Rightarrow> bool \<Rightarrow> string list \<Rightarrow> ('x RelayState_ext, unit) action" where
  "sendBlock env ctx useCache blockParticipants =
     andThen (getUSyncDevices env blockParticipants useCache False) (\<lambda>additionalDevices.
     andThen (\<lambda>s. case markNewDevices env (isLid ctx) additionalDevices ([], senderKeyMap s) of
                     (blockSenderKeyJids, marked) \<Rightarrow>
                       (Inr blockSenderKeyJids, s\<lparr>senderKeyMap := marked\<rparr>))
       (\<lambda>blockSenderKeyJids.
     andThen (sendToParticipants env ctx additionalDevices blockSenderKeyJids)
       (\<lambda>_. succeed ())))"

text \<open>
  What the head of \<open>relayMessage\<close> computes from its arguments, the account's id and
  the decoded jid.
\<close>

definition relayContext ::
  "SocketEnv \<Rightarrow> string \<Rightarrow> js_value \<Rightarrow> MessageRelayOptions \<Rightarrow> string \<Rightarrow> FullJid \<Rightarrow> RelayContext" where
  "relayContext env jid message options myId decoded =
     \<lparr> ctxJid = jid,
       ctxMessage = message,
       meId = myId,
       isGroup = (server decoded = ''g.us''),
       isStatus = (jid = ''status@broadcast''),
       isLid = (server decoded = ''lid''),
       msgId = (if truthyString (messageId options)
                then (case messageId options of Some i \<Rightarrow> i | None \<Rightarrow> [])
                else generateMessageIDV2 env),
       destinationJid =
         (if jid \<noteq> ''status@broadcast''
          then jidEncode (waBinary env) (user decoded)
                 (if server decoded = ''lid'' then ''lid''
                  else if server decoded = ''g.us'' then ''g.us''
                  else ''s.whatsapp.net'') None
          else ''status@broadcast''),
       ctxUseCachedGroupMetadata =
         (useCachedGroupMetadata options \<noteq> Some False \<and> jid \<noteq> ''status@broadcast''),
       ctxParticipant = participant options,
       ctxAdditionalAttributes = additionalAttributes options,
       ctxAdditionalNodes = additionalNodes options \<rparr>"

text \<open>
  A group or status send to more participants than the block size: the sender-key
  memory is read once, every block marks its new devices in it and dispatches, and the
  memory is written when all blocks are done.
\<close>

definition relayInBlocks ::
  "SocketEnv \<Rightarrow> RelayContext \<Rightarrow> bool \<Rightarrow> string list \<Rightarrow> ('x RelayState_ext, string) action" where
  "relayInBlocks env ctx useCache participantsList =
     andThen (if isStatus ctx then succeed [] else readSenderKeyMemory (ctxJid ctx))
       (\<lambda>memory.
     andThen (\<lambda>s. (Inr (), s\<lparr>senderKeyMap := memory\<rparr>)) (\<lambda>_.
     andThen (allOf (map (sendBlock env ctx useCache)
                (chunksOf (participantBlockSize env) participantsList)))
       (\<lambda>_.
     andThen (if \<not> isStatus ctx
              then (\<lambda>s. writeSenderKeyMemory (ctxJid ctx) (senderKeyMap s) s)
              else succeed ())
       (\<lambda>_. succeed (msgId ctx)))))"

text \<open>
  A group or status send to at most the block size of participants: the new devices
  are marked in the sender-key memory, which is written when there are any, and one
  dispatch follows.
\<close>

definition relayAtOnce ::
  "SocketEnv \<Rightarrow> RelayContext \<Rightarrow> bool \<Rightarrow> string list \<Rightarrow> ('x RelayState_ext, string) action" where
  "relayAtOnce env ctx useCache participantsList =
     andThen (getUSyncDevices env participantsList useCache False)
       (\<lambda>additionalDevices.
     andThen
       (if \<not> isStatus ctx then
          andThen (readSenderKeyMemory (ctxJid ctx)) (\<lambda>memory.
            case markNewDevices env (isLid ctx) additionalDevices ([], memory) of
              (senderKeyJids, marked) \<Rightarrow>
                if length senderKeyJids \<noteq> 0
                then andThen (writeSenderKeyMemory (ctxJid ctx) marked)
                       (\<lambda>_. succeed senderKeyJids)
                else succeed senderKeyJids)
        else succeed [])
       (\<lambda>senderKeyJids.
     sendToParticipants env ctx additionalDevices senderKeyJids))"

text \<open>
  The body of \<open>relayMessage(jid, message, options)\<close>, on the socket's state and the
  variables of this call.
\<close>

definition relayMessageBody ::
  "SocketEnv \<Rightarrow> string \<Rightarrow> js_value \<Rightarrow> MessageRelayOptions \<Rightarrow> ('x RelayState_ext, string) action" where
  "relayMessageBody env jid message options =
     (case credsMe env of
        None \<Rightarrow> throw TypeError
      | Some (myId, myLid) \<Rightarrow>
     (case jidDecode (waBinary env) jid of
        None \<Rightarrow> throw TypeError
      | Some decoded \<Rightarrow>
     (let group = (server decoded = ''g.us'');
          status = (jid = ''status@broadcast'');
          useCache = (useUserDevicesCache options \<noteq> Some False);
          ctx = relayContext env jid message options myId decoded
      in case participant options of
           Some participantJid \<Rightarrow>
             (case jidDecode (waBinary env) participantJid of
                None \<Rightarrow> throw TypeError
              | Some target \<Rightarrow>
                  sendToParticipants env
                    (if \<not> group \<and> \<not> status
                     then ctx\<lparr>ctxAdditionalAttributes :=
                                Some (setAttr ''device_fanout'' (Some ''false'')
                                  (case additionalAttributes options of
                                     Some as \<Rightarrow> as | None \<Rightarrow> []))\<rparr>
                     else ctx)
                    [\<lparr> user = user target, device = device target \<rparr>] [])
         | None \<Rightarrow>
             if group \<or> status then
               (let participantsList = relayParticipantsList env jid options group status
                in if length participantsList > participantBlockSize env
                   then relayInBlocks env ctx useCache participantsList
                   else relayAtOnce env ctx useCache participantsList)
             else
               (case jidDecode (waBinary env) myId of
                  None \<Rightarrow> throw TypeError
                | Some me \<Rightarrow>
                    andThen
                      (if getAttr (case additionalAttributes options of
                                     Some as \<Rightarrow> as | None \<Rightarrow> []) ''category''
                            \<noteq> Some (Some ''peer'')
                       then getUSyncDevices env [myId, jid] useCache True
                       else succeed [])
                      (\<lambda>additionalDevices.
                    sendToParticipants env ctx
                      ([\<lparr> user = user decoded, device = None \<rparr>]
                       @ (if user decoded \<noteq> user me
                          then [\<lparr> user = user me, device = None \<rparr>] else [])
                       @ additionalDevices)
                      [])))))"

text \<open>
  \<open>relayMessage\<close> on the socket's state: the variables of the call start empty and
  end with the call.
\<close>

definition enterRelay :: "SocketState \<Rightarrow> RelayState" where
  "enterRelay s =
     \<lparr> userDevicesCache = userDevicesCache s,
       mediaTypeCache = mediaTypeCache s,
       verifiedSessionsCache = verifiedSessionsCache s,
       pendingMediaQueries = pendingMediaQueries s,
       mediaConn = mediaConn s,
       lastMediaConnRefresh = lastMediaConnRefresh s,
       promises = promises s,
       sessionStore = sessionStore s,
       senderKeyMemoryStore = senderKeyMemoryStore s,
       trace = trace s,
       extraAttrs = [],
       shouldIncludeDeviceIdentity = False,
       senderKeyMap = [] \<rparr>"

definition leaveRelay :: "RelayState \<Rightarrow> SocketState" where
  "leaveRelay s =
     \<lparr> userDevicesCache = userDevicesCache s,
       mediaTypeCache = mediaTypeCache s,
       verifiedSessionsCache = verifiedSessionsCache s,
       pendingMediaQueries = pendingMediaQueries s,
       mediaConn = mediaConn s,
       lastMediaConnRefresh = lastMediaConnRefresh s,
       promises = promises s,
       sessionStore = sessionStore s,
       senderKeyMemoryStore = senderKeyMemoryStore s,
       trace = trace s \<rparr>"

definition relayMessage ::
  "SocketEnv \<Rightarrow> string \<Rightarrow> js_value \<Rightarrow> MessageRelayOptions \<Rightarrow> SocketState \<Rightarrow>
   (js_error + string) \<times> SocketState" where
  "relayMessage env jid message options s =
     (case relayMessageBody env jid message options (enterRelay s) of
        (r, s') \<Rightarrow> (r, leaveRelay s'))"

section \<open>Reading the trace\<close>

text \<open>The stanzas handed to \<open>sendNode\<close>, and the jids encryptions were asked for.\<close>

fun sentStanzas :: "event list \<Rightarrow> BinaryNode list" where
  "sentStanzas [] = []"
| "sentStanzas (SendNode node # evs) = node # sentStanzas evs"
| "sentStanzas (ev # evs) = sentStanzas evs"

fun encryptedJids :: "event list \<Rightarrow> string list" where
  "encryptedJids [] = []"
| "encryptedJids (EncryptMessage jid data # evs) = jid # encryptedJids evs"
| "encryptedJids (ev # evs) = encryptedJids evs"

text \<open>The events that are writes to the key store.\<close>

fun isKeysSet :: "event \<Rightarrow> bool" where
  "isKeysSet (KeysSet category key) = True"
| "isKeysSet ev = False"

text \<open>
  The events that are neither a stanza sent nor the start or end of a transaction:
  what a dispatch does between opening its transaction and sending.
\<close>

fun isQuiet :: "event \<Rightarrow> bool" where
  "isQuiet (SendNode node) = False"
| "isQuiet TransactionBegin = False"
| "isQuiet TransactionCommit = False"
| "isQuiet TransactionRollback = False"
| "isQuiet ev = True"


text \<open>The event classes of the parts of a dispatch.\<close>

fun isSessionEvent :: "event \<Rightarrow> bool" where
  "isSessionEvent (KeysGet category keys) = (category = ''session'')"
| "isSessionEvent (KeysSet category key) = (category = ''session'')"
| "isSessionEvent (Query node) = True"
| "isSessionEvent ev = False"

fun isEncryptMessage :: "event \<Rightarrow> bool" where
  "isEncryptMessage (EncryptMessage jid data) = True"
| "isEncryptMessage ev = False"

text \<open>How often an encryption for a jid was asked for.\<close>

definition encryptionsFor :: "string \<Rightarrow> event list \<Rightarrow> nat" where
  "encryptionsFor jid evs = length (filter (\<lambda>j. j = jid) (encryptedJids evs))"

text \<open>Whether a jid is marked in the sender-key memory stored for a group.\<close>

definition markedIn :: "(string \<times> bool) list \<Rightarrow> string \<Rightarrow> bool" where
  "markedIn memory deviceJid = (map_of memory deviceJid = Some True)"

definition markedInStore :: "string \<Rightarrow> string \<Rightarrow> 'x SocketState_scheme \<Rightarrow> bool" where
  "markedInStore groupJid deviceJid s =
     (case map_of (senderKeyMemoryStore s) groupJid of
        Some memory \<Rightarrow> markedIn memory deviceJid
      | None \<Rightarrow> False)"

text \<open>
  The events of a dispatch before its stanza is sent, when participant nodes are built
  for the given jids only: quiet events, with encryptions for these jids alone.
\<close>

fun dispatchEvent :: "string list \<Rightarrow> event \<Rightarrow> bool" where
  "dispatchEvent jids (EncryptMessage jid data) = (jid \<in> set jids)"
| "dispatchEvent jids ev = isQuiet ev"

fun encryptsAmong :: "string list \<Rightarrow> event \<Rightarrow> bool" where
  "encryptsAmong jids (EncryptMessage jid data) = (jid \<in> set jids)"
| "encryptsAmong jids ev = False"

fun encryptsOnly :: "string list \<Rightarrow> event \<Rightarrow> bool" where
  "encryptsOnly jids (EncryptMessage jid data) = (jid \<in> set jids)"
| "encryptsOnly jids ev = True"

fun isDeviceQuery :: "event \<Rightarrow> bool" where
  "isDeviceQuery (USyncQuery jids) = True"
| "isDeviceQuery ev = False"

text \<open>The events that are not an encryption asked for the given jid.\<close>

fun encryptsElsewhere :: "string \<Rightarrow> event \<Rightarrow> bool" where
  "encryptsElsewhere deviceJid (EncryptMessage jid data) = (jid \<noteq> deviceJid)"
| "encryptsElsewhere deviceJid ev = True"


section \<open>A concrete socket\<close>

text \<open>
  The state of a socket that has just been made, over an empty key store: the caches
  are empty, no media connection was asked for, \<open>lastMediaConnRefresh\<close> is \<open>0\<close>.
\<close>

definition initialState :: SocketState where
  "initialState =
     \<lparr> userDevicesCache = [],
       mediaTypeCache = [],
       verifiedSessionsCache = [],
       pendingMediaQueries = None,
       mediaConn = None,
       lastMediaConnRefresh = 0,
       promises = [],
       sessionStore = [],
       senderKeyMemoryStore = [],
       trace = [] \<rparr>"

text \<open>
  An environment for the examples: the account \<open>me\<close>, the users \<open>alice\<close> and
  \<open>bob\<close>, each with one device, and the group \<open>g1\<close> of alice and bob. Every call
  succeeds; a query is answered with the node it sent; encryption returns the data with
  the type \<open>pkmsg\<close>.
\<close>

definition exampleWABinary :: WABinary where
  "exampleWABinary =
     \<lparr> jidDecode = map_of
         [(''g1@g.us'', \<lparr> user = ''g1'', device = None, server = ''g.us'' \<rparr>),
          (''alice@s.whatsapp.net'',
           \<lparr> user = ''alice'', device = None, server = ''s.whatsapp.net'' \<rparr>),
          (''bob@s.whatsapp.net'',
           \<lparr> user = ''bob'', device = None, server = ''s.whatsapp.net'' \<rparr>),
          (''me@s.whatsapp.net'',
           \<lparr> user = ''me'', device = None, server = ''s.whatsapp.net'' \<rparr>)],
       jidEncode = (\<lambda>u srv d. u @ (case d of None \<Rightarrow> [] | Some n \<Rightarrow> if n = 0 then [] else '':d'')
                              @ ''@'' @ srv),
       jidNormalizedUser = (\<lambda>jid. jid),
       isJidUser = (\<lambda>jid. jid \<in> set [''alice@s.whatsapp.net'', ''bob@s.whatsapp.net'',
                                      ''me@s.whatsapp.net'']),
       isJidGroup = (\<lambda>jid. jid = ''g1@g.us''),
       areJidsSameUser = (\<lambda>a b. a = b),
       S_WHATSAPP_NET = ''@s.whatsapp.net'' \<rparr>"

definition exampleRepository :: SignalRepository where
  "exampleRepository =
     \<lparr> jidToSignalProtocolAddress = (\<lambda>jid. jid),
       parseAndInjectE2ESessions = (\<lambda>node. Inr []),
       encryptMessage = (\<lambda>jid data. Inr (''pkmsg'', data)),
       encryptGroupMessage = (\<lambda>group data me. Inr (data, [7])) \<rparr>"

definition exampleEnv :: SocketEnv where
  "exampleEnv =
     \<lparr> waBinary = exampleWABinary,
       signalRepository = exampleRepository,
       credsMe = Some (''me@s.whatsapp.net'', None),
       participantBlockSizeConfig = None,
       cachedGroupMetadata = None,
       groupMetadata = (\<lambda>jid.
         if jid = ''g1@g.us''
         then Inr \<lparr> participants = Some [''alice@s.whatsapp.net'', ''bob@s.whatsapp.net''] \<rparr>
         else Inl (Boom ''item-not-found'')),
       executeUSyncQuery = (\<lambda>toFetch ignoreZeroDevices.
         Inr (Some (map (\<lambda>jid. \<lparr> user = takeWhile (\<lambda>c. c \<noteq> CHR ''@'') jid, device = None \<rparr>)
                      toFetch))),
       query = (\<lambda>node. Inr node),
       sendNode = (\<lambda>node. Inr ()),
       patchMessageBeforeSending = (\<lambda>message jids. Inr message),
       encodeWAMessage = (\<lambda>message. [1]),
       normalizeMessageContent = (\<lambda>message. Some message),
       encodeSignedDeviceIdentity = [9],
       generateMessageIDV2 = ''ID1'',
       unixTimestampSeconds = 1700000000,
       toNumber = (\<lambda>text. None) \<rparr>"

text \<open>A text message, and relay options that set nothing.\<close>

definition exampleMessage :: js_value where
  "exampleMessage = JObject [(''conversation'', JString ''hi'')]"

definition noOptions :: MessageRelayOptions where
  "noOptions =
     \<lparr> messageId = None,
       participant = None,
       additionalAttributes = None,
       additionalNodes = None,
       useUserDevicesCache = None,
       useCachedGroupMetadata = None,
       statusJidList = None \<rparr>"

text \<open>
  A stored state whose key id is \<open>0\<close>, with a chain key and a signing key as
  \<open>JSON.parse\<close> gives them, and a codec that decodes no text.
\<close>

definition zeroIdState :: js_value where
  "zeroIdState =
     JObject
       [(''senderKeyId'', JNumber 0),
        (''senderChainKey'',
         JObject [(''iteration'', JNumber 0),
                  (''seed'', JObject [(''type'', JString ''Buffer''),
                                      (''data'', JArray [JNumber 1])])]),
        (''senderSigningKey'',
         JObject [(''public'', JObject [(''type'', JString ''Buffer''),
                                        (''data'', JArray [JNumber 2])])]),
        (''senderMessageKeys'', JArray [])]"

definition goodState :: "int \<Rightarrow> js_value" where
  "goodState keyId =
     JObject
       [(''senderKeyId'', JNumber keyId),
        (''senderChainKey'',
         JObject [(''iteration'', JNumber 0),
                  (''seed'', JObject [(''type'', JString ''Buffer''),
                                      (''data'', JArray [JNumber 1])])]),
        (''senderSigningKey'',
         JObject [(''public'', JObject [(''type'', JString ''Buffer''),
                                        (''data'', JArray [JNumber 2])])]),
        (''senderMessageKeys'', JArray [])]"

definition exampleCodec :: JsonCodec where
  "exampleCodec =
     \<lparr> jsonParse = (\<lambda>text. Inl SyntaxError),
       jsonStringify = (\<lambda>v. ''json''),
       utf8Decode = (\<lambda>raw. []),
       utf8Encode = (\<lambda>text. []) \<rparr>"

definition aggressiveOptions :: SenderKeyCleanupOptions where
  "aggressiveOptions = \<lparr> maxMemoryAge = None, maxStatesPerGroup = None, aggressive = Some True \<rparr>"


text \<open>
  Relay options with a participant override for alice; the environment with a block
  size of one participant; and that environment when the device query for bob fails.
\<close>

definition overrideOptions :: MessageRelayOptions where
  "overrideOptions = noOptions\<lparr>participant := Some ''alice@s.whatsapp.net''\<rparr>"

definition blockEnv :: SocketEnv where
  "blockEnv = exampleEnv\<lparr>participantBlockSizeConfig := Some 1\<rparr>"

definition failingEnv :: SocketEnv where
  "failingEnv =
     blockEnv\<lparr>executeUSyncQuery := (\<lambda>toFetch ignoreZeroDevices.
       if ''bob@s.whatsapp.net'' \<in> set toFetch then Inl (Boom ''timed out'')
       else executeUSyncQuery blockEnv toFetch ignoreZeroDevices)\<rparr>"
section \<open>Statements about actions\<close>

text \<open>
  \<open>within R Ev m\<close>: whatever the state and the outcome, \<open>m\<close> takes a state to one
  related to it by \<open>R\<close>, and only appends events to the trace, all of them in \<open>Ev\<close>.
\<close>

definition within ::
  "('x SocketState_scheme \<Rightarrow> 'x SocketState_scheme \<Rightarrow> bool) \<Rightarrow> (event \<Rightarrow> bool) \<Rightarrow>
   ('x, 'a) action \<Rightarrow> bool" where
  "within R Ev m \<longleftrightarrow>
     (\<forall>s. R s (snd (m s))
        \<and> (\<exists>evs. trace (snd (m s)) = trace s @ evs \<and> list_all Ev evs))"

text \<open>
  A relation between states that looks at nothing an event, a session or a cache
  changes: \<open>R\<close> relates a state to itself with the trace, the verified set, the session
  store and the two caches replaced.
\<close>

definition frame :: "('x SocketState_scheme \<Rightarrow> 'x SocketState_scheme \<Rightarrow> bool) \<Rightarrow> bool" where
  "frame R \<longleftrightarrow>
     reflp R \<and> transp R
     \<and> (\<forall>s t. R s (s\<lparr>trace := t\<rparr>))
     \<and> (\<forall>s v. R s (s\<lparr>verifiedSessionsCache := v\<rparr>))
     \<and> (\<forall>s v. R s (s\<lparr>sessionStore := v\<rparr>))
     \<and> (\<forall>s v. R s (s\<lparr>userDevicesCache := v\<rparr>))
     \<and> (\<forall>s v. R s (s\<lparr>mediaTypeCache := v\<rparr>))"

text \<open>
  \<open>triple P m Q\<close>: from a state in \<open>P\<close>, the outcome of \<open>m\<close> and the state it leaves
  are in \<open>Q\<close>.
\<close>

definition triple ::
  "('x SocketState_scheme \<Rightarrow> bool) \<Rightarrow> ('x, 'a) action \<Rightarrow>
   (js_error + 'a \<Rightarrow> 'x SocketState_scheme \<Rightarrow> bool) \<Rightarrow> bool" where
  "triple P m Q \<longleftrightarrow> (\<forall>s. P s \<longrightarrow> Q (fst (m s)) (snd (m s)))"

text \<open>
  For the state of a running relay, a frame relation also looks at neither
  \<open>extraAttrs\<close> nor \<open>shouldIncludeDeviceIdentity\<close>.
\<close>

definition relayFrame ::
  "('x RelayState_scheme \<Rightarrow> 'x RelayState_scheme \<Rightarrow> bool) \<Rightarrow> bool" where
  "relayFrame R \<longleftrightarrow>
     frame R
     \<and> (\<forall>s v. R s (s\<lparr>extraAttrs := v\<rparr>))
     \<and> (\<forall>s v. R s (s\<lparr>shouldIncludeDeviceIdentity := v\<rparr>))"

text \<open>
  \<open>grown Ev t s\<close>: the trace of \<open>s\<close> is \<open>t\<close> followed by events that are all in
  \<open>Ev\<close>.
\<close>

definition grown :: "(event \<Rightarrow> bool) \<Rightarrow> event list \<Rightarrow> 'x SocketState_scheme \<Rightarrow> bool" where
  "grown Ev t s \<longleftrightarrow> (\<exists>evs. trace s = t @ evs \<and> list_all Ev evs)"

section \<open>Verified properties\<close>

subsection \<open>The five-state bound\<close>

lemma addSenderKeyState_length:
  "length (senderKeyStates (addSenderKeyState k i c s r)) =
     (if length (senderKeyStates r) < 5 then Suc (length (senderKeyStates r))
      else length (senderKeyStates r))"
  by (simp add: addSenderKeyState_def MAX_STATES_def Let_def)

lemma addSenderKeyStates_bounded:
  "length (senderKeyStates r) \<le> 5 \<Longrightarrow>
     length (senderKeyStates (addSenderKeyStates calls r)) \<le> 5"
proof (induction calls arbitrary: r)
  case Nil
  then show ?case by simp
next
  case (Cons call calls)
  obtain k i c s where call: "call = (k, i, c, s)"
    by (cases call) auto
  have "length (senderKeyStates (addSenderKeyState k i c s r)) \<le> 5"
    using Cons.prems by (simp add: addSenderKeyState_length)
  then show ?case
    using Cons.IH call by simp
qed

lemma addSenderKeyStates_full:
  "5 \<le> length (senderKeyStates r) \<Longrightarrow>
     length (senderKeyStates (addSenderKeyStates calls r)) = length (senderKeyStates r)"
proof (induction calls arbitrary: r)
  case Nil
  then show ?case by simp
next
  case (Cons call calls)
  obtain k i c s where call: "call = (k, i, c, s)"
    by (cases call) auto
  have same: "length (senderKeyStates (addSenderKeyState k i c s r)) = length (senderKeyStates r)"
    using Cons.prems by (simp add: addSenderKeyState_length)
  then have "5 \<le> length (senderKeyStates (addSenderKeyState k i c s r))"
    using Cons.prems by simp
  then show ?case
    using Cons.IH[of "addSenderKeyState k i c s r"] call same by simp
qed

text \<open>
  C3, as the code has it. After any sequence of \<open>addSenderKeyState\<close> calls on a new
  record, or on any record that holds at most five states, the record holds at most five
  states. A call on a record that holds five states or more drops the oldest state, the
  head of the array, and puts the new state at the tail; so a record that holds more
  than five states, as the constructor makes it from more than five structures, holds
  as many after any sequence of calls.
\<close>

theorem addSenderKeyState_five_state_ring:
  "length (senderKeyStates (addSenderKeyStates calls (newSenderKeyRecord None))) \<le> 5
   \<and> (length (senderKeyStates r) \<le> 5 \<longrightarrow>
        length (senderKeyStates (addSenderKeyStates calls r)) \<le> 5)
   \<and> (5 \<le> length (senderKeyStates r) \<longrightarrow>
        senderKeyStates (addSenderKeyState k i c s r) =
          tl (senderKeyStates r) @ [newSenderKeyState k i c None (Some s)])
   \<and> (5 \<le> length (senderKeyStates r) \<longrightarrow>
        length (senderKeyStates (addSenderKeyStates calls r)) = length (senderKeyStates r))"
proof (intro conjI impI)
  show "length (senderKeyStates (addSenderKeyStates calls (newSenderKeyRecord None))) \<le> 5"
    by (rule addSenderKeyStates_bounded) (simp add: newSenderKeyRecord_def)
next
  assume "length (senderKeyStates r) \<le> 5"
  then show "length (senderKeyStates (addSenderKeyStates calls r)) \<le> 5"
    by (rule addSenderKeyStates_bounded)
next
  assume five: "5 \<le> length (senderKeyStates r)"
  then have "senderKeyStates r \<noteq> []"
    by auto
  then show "senderKeyStates (addSenderKeyState k i c s r) =
      tl (senderKeyStates r) @ [newSenderKeyState k i c None (Some s)]"
    using five by (simp add: addSenderKeyState_def MAX_STATES_def Let_def)
next
  assume "5 \<le> length (senderKeyStates r)"
  then show "length (senderKeyStates (addSenderKeyStates calls r)) = length (senderKeyStates r)"
    by (rule addSenderKeyStates_full)
qed

text \<open>A record of five states, used to exercise the eviction.\<close>

theorem addSenderKeyState_five_state_ring_witness:
  "length (senderKeyStates (addSenderKeyStates [(6, 0, [1], [2])]
      (newSenderKeyRecord (Some (map exampleStructure [1, 2, 3, 4, 5]))))) = 5
   \<and> length (senderKeyStates
      (newSenderKeyRecord (Some (map exampleStructure [1, 2, 3, 4, 5])))) = 5
   \<and> senderKeyStates (addSenderKeyState 6 0 [1] [2]
        (newSenderKeyRecord (Some (map exampleStructure [1, 2, 3, 4, 5])))) =
      map SenderKeyState (map exampleStructure [2, 3, 4, 5])
        @ [newSenderKeyState 6 0 [1] None (Some [2])]"
  using addSenderKeyState_five_state_ring
    [of "[(6, 0, [1], [2])]" "newSenderKeyRecord (Some (map exampleStructure [1, 2, 3, 4, 5]))"
        6 0 "[1]" "[2]"]
  by (simp add: newSenderKeyRecord_def)

text \<open>
  A record made by the constructor from six structures holds six states, and still
  holds six after two calls of \<open>addSenderKeyState\<close>: more than five.
\<close>

theorem addSenderKeyState_six_stay_six:
  "length (senderKeyStates
      (newSenderKeyRecord (Some (map exampleStructure [1, 2, 3, 4, 5, 6])))) = 6
   \<and> length (senderKeyStates
      (addSenderKeyStates [(7, 0, [1], [2]), (8, 0, [1], [2])]
        (newSenderKeyRecord (Some (map exampleStructure [1, 2, 3, 4, 5, 6]))))) = 6"
  by (simp add: newSenderKeyRecord_def addSenderKeyState_def MAX_STATES_def Let_def)

subsection \<open>Selection of the newest valid state\<close>

lemma scanBackward_take:
  "n \<le> length states \<Longrightarrow>
     scanBackward states n =
       (if filter isValidSenderKeyState (take n states) = [] then None
        else Some (last (filter isValidSenderKeyState (take n states))))"
proof (induction n)
  case 0
  then show ?case by simp
next
  case (Suc n)
  then have "take (Suc n) states = take n states @ [states ! n]"
    by (simp add: take_Suc_conv_app_nth)
  then show ?case
    using Suc by simp
qed

lemma last_filter_valid_tail:
  assumes "states \<noteq> []" and "P (last states)"
  shows "last (filter P states) = last states"
proof -
  have "states = butlast states @ [last states]"
    using assms(1) by simp
  then have "filter P states = filter P (butlast states) @ [last states]"
    using assms(2) by (metis filter.simps(1) filter.simps(2) filter_append)
  then show ?thesis
    by simp
qed

lemma isValidSenderKeyState_iff:
  "isValidSenderKeyState st \<longleftrightarrow>
     0 < getKeyId st
     \<and> (\<exists>chainKey. getSenderChainKey st = Some chainKey \<and> 0 \<le> iteration chainKey)
     \<and> getSigningKeyPublic st \<noteq> []"
  by (auto simp: isValidSenderKeyState_def split: option.splits)

text \<open>
  C4. Called without a key id, \<open>getSenderKeyState\<close> returns the newest state that
  passes the validity check (the last valid one of the array, the tail when the tail is
  valid) and leaves the record as it is; when no state is valid it returns nothing and
  the record is empty afterwards. The validity check is: key id above zero, chain key
  there with an iteration of at least zero, public signing key not empty.
\<close>

theorem getSenderKeyState_newest_valid:
  "getSenderKeyState None r =
     (if filter isValidSenderKeyState (senderKeyStates r) = []
      then (None, r\<lparr>senderKeyStates := []\<rparr>)
      else (Some (last (filter isValidSenderKeyState (senderKeyStates r))), r))
   \<and> (isValidSenderKeyState st \<longleftrightarrow>
        0 < getKeyId st
        \<and> (\<exists>chainKey. getSenderChainKey st = Some chainKey \<and> 0 \<le> iteration chainKey)
        \<and> getSigningKeyPublic st \<noteq> [])"
proof (rule conjI)
  show "getSenderKeyState None r =
     (if filter isValidSenderKeyState (senderKeyStates r) = []
      then (None, r\<lparr>senderKeyStates := []\<rparr>)
      else (Some (last (filter isValidSenderKeyState (senderKeyStates r))), r))"
  proof (cases "senderKeyStates r = []")
    case True
    then show ?thesis
      by (simp add: getSenderKeyState_def)
  next
    case nonempty: False
    show ?thesis
    proof (cases "isValidSenderKeyState (last (senderKeyStates r))")
      case True
      then have "last (filter isValidSenderKeyState (senderKeyStates r)) = last (senderKeyStates r)"
        using nonempty by (simp add: last_filter_valid_tail)
      moreover have "filter isValidSenderKeyState (senderKeyStates r) \<noteq> []"
        using True nonempty by (metis filter_empty_conv last_in_set)
      ultimately show ?thesis
        using True nonempty by (simp add: getSenderKeyState_def)
    next
      case False
      then show ?thesis
        using nonempty
        by (simp add: getSenderKeyState_def scanBackward_take)
    qed
  qed
next
  show "isValidSenderKeyState st \<longleftrightarrow>
        0 < getKeyId st
        \<and> (\<exists>chainKey. getSenderChainKey st = Some chainKey \<and> 0 \<le> iteration chainKey)
        \<and> getSigningKeyPublic st \<noteq> []"
    by (rule isValidSenderKeyState_iff)
qed

subsection \<open>Serialization round trip\<close>

text \<open>
  C5. \<open>SenderKeyRecord.deserialize(r.serialize())\<close> succeeds and gives a record equal
  to \<open>r\<close>: the same states in the same order, each with the same key id, chain key
  (iteration and seed), signing key (public and private bytes) and message keys.
\<close>

theorem deserialize_serialize:
  "deserialize parseJSON utf8 (DataStructures (serialize r)) = Inr r
   \<and> serialize (newSenderKeyRecord (Some (serialize r))) = serialize r"
  by (simp add: deserialize_def serialize_def newSenderKeyRecord_def comp_def)

subsection \<open>Receipts\<close>

text \<open>
  C9. With no ids, \<open>sendReceipt\<close> sends nothing and leaves the state as it is. With
  ids \<open>firstId # otherIds\<close> it hands exactly one node to \<open>sendNode\<close>, a \<open>receipt\<close>
  with \<open>id\<close> the first id; with \<open>t\<close>, the clock's seconds in decimal, exactly for the
  types \<open>read\<close> and \<open>read-self\<close>; for type \<open>sender\<close> and a user jid with
  \<open>recipient\<close> the jid, \<open>to\<close> the participant and no \<open>participant\<close>; otherwise
  with \<open>to\<close> the jid, no \<open>recipient\<close>, and \<open>participant\<close> exactly when a non-empty
  participant was given; and with a single \<open>list\<close> child holding one \<open>item\<close> for each
  remaining id exactly when there is more than one id, and no content otherwise.
\<close>

theorem sendReceipt_stanza:
  fixes participant :: "string option"
  shows "sendReceipt env jid participant [] type s = (Inr (), s)
   \<and> (\<exists>node.
        sendReceipt env jid participant (firstId # otherIds) type s =
          (sendNode env node, s\<lparr>trace := trace s @ [SendNode node]\<rparr>)
        \<and> tag node = ''receipt''
        \<and> getAttr (attrs node) ''id'' = Some (Some firstId)
        \<and> getAttr (attrs node) ''t'' =
            (if type = Some ''read'' \<or> type = Some ''read-self''
             then Some (Some (numberToString (unixTimestampSeconds env))) else None)
        \<and> (if type = Some ''sender'' \<and> isJidUser (waBinary env) jid
            then getAttr (attrs node) ''recipient'' = Some (Some jid)
               \<and> getAttr (attrs node) ''to'' = Some participant
               \<and> getAttr (attrs node) ''participant'' = None
            else getAttr (attrs node) ''recipient'' = None
               \<and> getAttr (attrs node) ''to'' = Some (Some jid)
               \<and> getAttr (attrs node) ''participant'' =
                   (if truthyString participant then Some participant else None))
        \<and> content node =
            (if length (firstId # otherIds) > 1
             then NodesContent
               [BinaryNode ''list'' []
                  (NodesContent
                     (map (\<lambda>i. BinaryNode ''item'' [(''id'', Some i)] NoContent) otherIds))]
             else NoContent))"
proof (rule conjI)
  show "sendReceipt env jid participant [] type s = (Inr (), s)"
    by (simp add: sendReceipt_def succeed_def)
next
  let ?node = "receiptNode env jid participant firstId otherIds type"
  have sent: "sendReceipt env jid participant (firstId # otherIds) type s =
      (sendNode env ?node, s\<lparr>trace := trace s @ [SendNode ?node]\<rparr>)"
    by (simp add: sendReceipt_def doSendNode_def andThen_def emit_def fromResult_def)
  have shape: "tag ?node = ''receipt''
      \<and> getAttr (attrs ?node) ''id'' = Some (Some firstId)
      \<and> getAttr (attrs ?node) ''t'' =
          (if type = Some ''read'' \<or> type = Some ''read-self''
           then Some (Some (numberToString (unixTimestampSeconds env))) else None)"
    by (auto simp: receiptNode_def Let_def setAttr_def getAttr_def)
  have addressing: "if type = Some ''sender'' \<and> isJidUser (waBinary env) jid
      then getAttr (attrs ?node) ''recipient'' = Some (Some jid)
         \<and> getAttr (attrs ?node) ''to'' = Some participant
         \<and> getAttr (attrs ?node) ''participant'' = None
      else getAttr (attrs ?node) ''recipient'' = None
         \<and> getAttr (attrs ?node) ''to'' = Some (Some jid)
         \<and> getAttr (attrs ?node) ''participant'' =
             (if truthyString participant then Some participant else None)"
    by (auto simp: receiptNode_def Let_def setAttr_def getAttr_def)
  have children: "content ?node =
      (if length (firstId # otherIds) > 1
       then NodesContent
         [BinaryNode ''list'' []
            (NodesContent
               (map (\<lambda>i. BinaryNode ''item'' [(''id'', Some i)] NoContent) otherIds))]
       else NoContent)"
    by (auto simp: receiptNode_def Let_def)
  show "\<exists>node.
        sendReceipt env jid participant (firstId # otherIds) type s =
          (sendNode env node, s\<lparr>trace := trace s @ [SendNode node]\<rparr>)
        \<and> tag node = ''receipt''
        \<and> getAttr (attrs node) ''id'' = Some (Some firstId)
        \<and> getAttr (attrs node) ''t'' =
            (if type = Some ''read'' \<or> type = Some ''read-self''
             then Some (Some (numberToString (unixTimestampSeconds env))) else None)
        \<and> (if type = Some ''sender'' \<and> isJidUser (waBinary env) jid
            then getAttr (attrs node) ''recipient'' = Some (Some jid)
               \<and> getAttr (attrs node) ''to'' = Some participant
               \<and> getAttr (attrs node) ''participant'' = None
            else getAttr (attrs node) ''recipient'' = None
               \<and> getAttr (attrs node) ''to'' = Some (Some jid)
               \<and> getAttr (attrs node) ''participant'' =
                   (if truthyString participant then Some participant else None))
        \<and> content node =
            (if length (firstId # otherIds) > 1
             then NodesContent
               [BinaryNode ''list'' []
                  (NodesContent
                     (map (\<lambda>i. BinaryNode ''item'' [(''id'', Some i)] NoContent) otherIds))]
             else NoContent)"
    using sent shape addressing children by blast
qed

subsection \<open>The media connection is refreshed in single flight\<close>

lemma refreshMediaConnCalls_pending:
  "pendingMediaQueries s = Some p \<Longrightarrow>
     refreshMediaConnCalls env calls s = (replicate (length calls) (Some p), s)"
  by (induction calls) (auto simp: refreshMediaConn_def)

lemma refreshMediaConn_starts:
  assumes "pendingMediaQueries s = None"
    and "mediaConn s = None \<or> forceGet \<or> now - lastMediaConnRefresh s > 60000"
  shows "refreshMediaConn env forceGet now s =
     (Some (length (promises s)),
      s\<lparr>promises := promises s @ [Pending now],
        trace := trace s @ [Query (mediaConnQuery env)],
        pendingMediaQueries := Some (length (promises s)),
        mediaConn := Some (length (promises s))\<rparr>)"
  using assms by (auto simp: refreshMediaConn_def MEDIA_CONN_CHECK_INTERVAL_def Let_def)

text \<open>
  C7. \<open>refreshMediaConn\<close>, called at time \<open>now\<close>: with a refresh in flight it returns
  the promise in flight and changes nothing (no query); with none in flight it starts a
  fetch exactly when there is no media connection yet, or \<open>forceGet\<close> is set, or more
  than 60000 ms have passed since the last refresh, and then sends one query and returns
  the new promise, which is now the one in flight and the current one; otherwise it
  returns the current promise and changes nothing. So all calls made while a refresh is
  in flight, and the call that started it, get the same promise, and one query is sent
  for all of them.
\<close>

theorem refreshMediaConn_single_flight:
  "(pendingMediaQueries s = Some p \<longrightarrow>
      refreshMediaConn env forceGet now s = (Some p, s)
      \<and> refreshMediaConnCalls env calls s = (replicate (length calls) (Some p), s))
   \<and> (pendingMediaQueries s = None \<longrightarrow>
        (if mediaConn s = None \<or> forceGet \<or> now - lastMediaConnRefresh s > 60000
         then (\<exists>s'. refreshMediaConn env forceGet now s = (Some (length (promises s)), s')
                \<and> trace s' = trace s @ [Query (mediaConnQuery env)]
                \<and> promises s' = promises s @ [Pending now]
                \<and> pendingMediaQueries s' = Some (length (promises s))
                \<and> mediaConn s' = Some (length (promises s))
                \<and> refreshMediaConnCalls env ((forceGet, now) # calls) s =
                    (replicate (Suc (length calls)) (Some (length (promises s))), s'))
         else refreshMediaConn env forceGet now s = (mediaConn s, s)))"
proof (intro conjI impI)
  assume "pendingMediaQueries s = Some p"
  then show "refreshMediaConn env forceGet now s = (Some p, s)"
    by (simp add: refreshMediaConn_def)
next
  assume "pendingMediaQueries s = Some p"
  then show "refreshMediaConnCalls env calls s = (replicate (length calls) (Some p), s)"
    by (rule refreshMediaConnCalls_pending)
next
  assume idle: "pendingMediaQueries s = None"
  show "if mediaConn s = None \<or> forceGet \<or> now - lastMediaConnRefresh s > 60000
     then (\<exists>s'. refreshMediaConn env forceGet now s = (Some (length (promises s)), s')
            \<and> trace s' = trace s @ [Query (mediaConnQuery env)]
            \<and> promises s' = promises s @ [Pending now]
            \<and> pendingMediaQueries s' = Some (length (promises s))
            \<and> mediaConn s' = Some (length (promises s))
            \<and> refreshMediaConnCalls env ((forceGet, now) # calls) s =
                (replicate (Suc (length calls)) (Some (length (promises s))), s'))
     else refreshMediaConn env forceGet now s = (mediaConn s, s)"
  proof (cases "mediaConn s = None \<or> forceGet \<or> now - lastMediaConnRefresh s > 60000")
    case True
    let ?s' = "s\<lparr>promises := promises s @ [Pending now],
        trace := trace s @ [Query (mediaConnQuery env)],
        pendingMediaQueries := Some (length (promises s)),
        mediaConn := Some (length (promises s))\<rparr>"
    have first: "refreshMediaConn env forceGet now s = (Some (length (promises s)), ?s')"
      using idle True by (rule refreshMediaConn_starts)
    have "pendingMediaQueries ?s' = Some (length (promises s))"
      by simp
    then have "refreshMediaConnCalls env calls ?s' =
        (replicate (length calls) (Some (length (promises s))), ?s')"
      by (rule refreshMediaConnCalls_pending)
    then have "refreshMediaConnCalls env ((forceGet, now) # calls) s =
        (replicate (Suc (length calls)) (Some (length (promises s))), ?s')"
      using first by simp
    then show ?thesis
      using True first by auto
  next
    case False
    then show ?thesis
      using idle by (auto simp: refreshMediaConn_def MEDIA_CONN_CHECK_INTERVAL_def)
  qed
qed

text \<open>
  On a new socket, a first call and two more calls made before the query answers get
  promise \<open>0\<close>, and the trace holds one query.
\<close>

theorem refreshMediaConn_single_flight_witness:
  "pendingMediaQueries initialState = None
   \<and> fst (refreshMediaConnCalls exampleEnv [(False, 1000), (True, 1001), (False, 70000)]
        initialState) = [Some 0, Some 0, Some 0]
   \<and> trace (snd (refreshMediaConnCalls exampleEnv [(False, 1000), (True, 1001), (False, 70000)]
        initialState)) = [Query (mediaConnQuery exampleEnv)]
   \<and> pendingMediaQueries (snd (refreshMediaConn exampleEnv False 1000 initialState)) = Some 0
   \<and> refreshMediaConn exampleEnv True 1001
        (snd (refreshMediaConn exampleEnv False 1000 initialState)) =
      (Some 0, snd (refreshMediaConn exampleEnv False 1000 initialState))"
proof -
  have idle: "pendingMediaQueries initialState = None"
    by (simp add: initialState_def)
  have none: "mediaConn initialState = None"
    by (simp add: initialState_def)
  have len: "length (promises initialState) = 0"
    by (simp add: initialState_def)
  have tr: "trace initialState = []"
    by (simp add: initialState_def)
  from refreshMediaConn_single_flight
    [of initialState 0 exampleEnv False 1000 "[(True, 1001), (False, 70000)]"]
  obtain s' where
    first: "refreshMediaConn exampleEnv False 1000 initialState = (Some 0, s')"
    and trace': "trace s' = [Query (mediaConnQuery exampleEnv)]"
    and pending': "pendingMediaQueries s' = Some 0"
    and calls: "refreshMediaConnCalls exampleEnv [(False, 1000), (True, 1001), (False, 70000)]
        initialState = ([Some 0, Some 0, Some 0], s')"
    using idle none len tr by (auto simp: numeral_3_eq_3)
  from refreshMediaConn_single_flight [of s' 0 exampleEnv True 1001 "[]"] pending'
  have again: "refreshMediaConn exampleEnv True 1001 s' = (Some 0, s')"
    by simp
  show ?thesis
    using idle first trace' pending' calls again by simp
qed

subsection \<open>Sessions asserted once are not fetched again\<close>

lemma setAdd_set: "set (setAdd x xs) = insert x (set xs)"
  by (auto simp: setAdd_def)

lemma foldl_setAdd_set: "set (foldl (\<lambda>c j. setAdd j c) c js) = set c \<union> set js"
  by (induction js arbitrary: c) (auto simp: setAdd_set)

lemma uniqueInOrder_set: "set (uniqueInOrder xs) = set xs"
  by (simp add: uniqueInOrder_def)

lemma partitionBySession_covers:
  "partitionBySession env sessions jids acc s = (req, s') \<Longrightarrow>
     set acc \<union> set jids \<union> set (verifiedSessionsCache s)
       \<subseteq> set req \<union> set (verifiedSessionsCache s')"
proof (induction jids arbitrary: acc s)
  case Nil
  then show ?case by auto
next
  case (Cons jid jids)
  show ?case
  proof (cases "sessions (jidToSignalProtocolAddress (signalRepository env) jid)")
    case None
    then have "partitionBySession env sessions jids (acc @ [jid]) s = (req, s')"
      using Cons.prems by simp
    from Cons.IH[OF this] show ?thesis by auto
  next
    case (Some session)
    then have "partitionBySession env sessions jids acc
        (s\<lparr>verifiedSessionsCache := setAdd jid (verifiedSessionsCache s)\<rparr>) = (req, s')"
      using Cons.prems by simp
    from Cons.IH[OF this] show ?thesis by (auto simp: setAdd_set)
  qed
qed

lemma storeSessions_verified:
  "verifiedSessionsCache (storeSessions installed s) = verifiedSessionsCache s"
  by (induction installed s rule: storeSessions.induct) auto

lemma assertSessions_verified_noop:
  assumes "set jids \<subseteq> set (verifiedSessionsCache s)"
  shows "assertSessions env jids False s = (Inr False, s)"
proof -
  have "filter (\<lambda>jid. jid \<notin> set (verifiedSessionsCache s)) (uniqueInOrder jids) = []"
    using assms by (auto simp: filter_empty_conv uniqueInOrder_set)
  then show ?thesis
    by (simp add: assertSessions_def Let_def)
qed

lemma assertSessions_all_verified:
  assumes "assertSessions env jids False s = (Inr b, s')"
  shows "set jids \<subseteq> set (verifiedSessionsCache s')"
proof -
  define remaining where
    "remaining = filter (\<lambda>jid. jid \<notin> set (verifiedSessionsCache s)) (uniqueInOrder jids)"
  define addrs where "addrs = map (jidToSignalProtocolAddress (signalRepository env)) remaining"
  define s1 where "s1 = s\<lparr>trace := trace s @ [KeysGet ''session'' addrs]\<rparr>"
  define sessions where
    "sessions = (\<lambda>signalId. if signalId \<in> set addrs then map_of (sessionStore s1) signalId
                             else None)"
  obtain req s2 where part: "partitionBySession env sessions remaining [] s1 = (req, s2)"
    by (cases "partitionBySession env sessions remaining [] s1") auto
  have all: "set jids \<subseteq> set remaining \<union> set (verifiedSessionsCache s)"
    by (auto simp: remaining_def uniqueInOrder_set)
  have cover: "set remaining \<union> set (verifiedSessionsCache s)
      \<subseteq> set req \<union> set (verifiedSessionsCache s2)"
    using partitionBySession_covers[OF part] by (simp add: s1_def)
  have unfolded: "assertSessions env jids False s =
     (if jids = [] then (Inr False, s)
      else if remaining = [] then (Inr False, s)
      else if req = [] then (Inr False, s2)
      else
        (case query env (prekeyQuery env req) of
           Inl e \<Rightarrow> (Inl e, s2\<lparr>trace := trace s2 @ [Query (prekeyQuery env req)]\<rparr>)
         | Inr result \<Rightarrow>
             (case parseAndInjectE2ESessions (signalRepository env) result of
                Inl e \<Rightarrow> (Inl e, s2\<lparr>trace := trace s2 @ [Query (prekeyQuery env req)]\<rparr>)
              | Inr installed \<Rightarrow>
                  (Inr True,
                   (storeSessions installed
                      (s2\<lparr>trace := trace s2 @ [Query (prekeyQuery env req)]\<rparr>))
                   \<lparr>verifiedSessionsCache :=
                      foldl (\<lambda>c j. setAdd j c)
                        (verifiedSessionsCache (storeSessions installed
                           (s2\<lparr>trace := trace s2 @ [Query (prekeyQuery env req)]\<rparr>)))
                        req\<rparr>))))"
  proof (cases "jids = [] \<or> remaining = [] \<or> req = []")
    case True
    then show ?thesis
      using part
      by (auto simp: assertSessions_def Let_def andThen_def keysGetSessions_def emit_def
          succeed_def remaining_def[symmetric] addrs_def[symmetric] sessions_def[symmetric]
          s1_def[symmetric])
  next
    case False
    show ?thesis
    proof (cases "query env (prekeyQuery env req)")
      case (Inl e)
      then show ?thesis
        using part False
        by (simp add: assertSessions_def Let_def andThen_def keysGetSessions_def emit_def
            succeed_def doQuery_def fromResult_def remaining_def[symmetric]
            addrs_def[symmetric] sessions_def[symmetric] s1_def[symmetric])
    next
      case (Inr result)
      then show ?thesis
        using part False
        by (cases "parseAndInjectE2ESessions (signalRepository env) result")
          (simp_all add: assertSessions_def Let_def andThen_def keysGetSessions_def emit_def
            succeed_def doQuery_def fromResult_def injectE2ESessions_def addVerified_def
            remaining_def[symmetric] addrs_def[symmetric] sessions_def[symmetric]
            s1_def[symmetric])
    qed
  qed
  consider (none) "jids = [] \<or> remaining = []"
    | (stored) "jids \<noteq> []" "remaining \<noteq> []" "req = []"
    | (fetch) "jids \<noteq> []" "remaining \<noteq> []" "req \<noteq> []"
    by blast
  then show ?thesis
  proof cases
    case none
    then have "s' = s"
      using assms unfolded by (auto split: if_splits)
    moreover have "set jids \<subseteq> set (verifiedSessionsCache s)"
      using none all by (auto simp: remaining_def filter_empty_conv uniqueInOrder_set)
    ultimately show ?thesis by simp
  next
    case stored
    then have "s' = s2"
      using assms unfolded by simp
    then show ?thesis
      using cover all stored by auto
  next
    case fetch
    then have "set (verifiedSessionsCache s') = set (verifiedSessionsCache s2) \<union> set req"
      using assms unfolded
      by (auto simp: foldl_setAdd_set storeSessions_verified split: sum.splits)
    then show ?thesis
      using cover all by blast
  qed
qed

text \<open>
  C8. After a call \<open>assertSessions(J, false)\<close> that completed, a second call
  \<open>assertSessions(J, false)\<close>, on the state the first one left or on any later state
  whose verified set still holds what it held then, returns \<open>false\<close> and leaves the
  state as it is: nothing is read from the store, no prekey query is sent, no session
  is installed. This holds whatever the environment answers the second time.
\<close>

theorem assertSessions_twice:
  assumes "assertSessions env jids False s = (Inr fetched, s')"
    and "set (verifiedSessionsCache s') \<subseteq> set (verifiedSessionsCache s'')"
  shows "assertSessions env' jids False s' = (Inr False, s')
     \<and> assertSessions env' jids False s'' = (Inr False, s'')"
proof -
  have verified: "set jids \<subseteq> set (verifiedSessionsCache s')"
    using assms(1) by (rule assertSessions_all_verified)
  then have "set jids \<subseteq> set (verifiedSessionsCache s'')"
    using assms(2) by blast
  then show ?thesis
    using verified by (simp add: assertSessions_verified_noop)
qed

lemma assertSessions_example:
  "assertSessions exampleEnv [''alice@s.whatsapp.net'', ''bob@s.whatsapp.net''] False initialState =
     (Inr True,
      initialState
        \<lparr>verifiedSessionsCache := [''alice@s.whatsapp.net'', ''bob@s.whatsapp.net''],
         trace :=
           [KeysGet ''session'' [''alice@s.whatsapp.net'', ''bob@s.whatsapp.net''],
            Query (prekeyQuery exampleEnv [''alice@s.whatsapp.net'', ''bob@s.whatsapp.net''])]\<rparr>)"
  by (simp add: assertSessions_def Let_def uniqueInOrder_def initialState_def andThen_def
      keysGetSessions_def emit_def succeed_def doQuery_def fromResult_def
      injectE2ESessions_def addVerified_def setAdd_def exampleEnv_def exampleRepository_def)

text \<open>
  On a new socket with no stored sessions, the first call for alice and bob sends the
  prekey query and returns \<open>true\<close>; the second returns \<open>false\<close> and the trace still
  holds one query.
\<close>

theorem assertSessions_twice_witness:
  "fst (assertSessions exampleEnv [''alice@s.whatsapp.net'', ''bob@s.whatsapp.net''] False
          initialState) = Inr True
   \<and> fst (assertSessions exampleEnv [''alice@s.whatsapp.net'', ''bob@s.whatsapp.net''] False
          (snd (assertSessions exampleEnv [''alice@s.whatsapp.net'', ''bob@s.whatsapp.net''] False
             initialState))) = Inr False
   \<and> trace (snd (assertSessions exampleEnv [''alice@s.whatsapp.net'', ''bob@s.whatsapp.net''] False
          (snd (assertSessions exampleEnv [''alice@s.whatsapp.net'', ''bob@s.whatsapp.net''] False
             initialState)))) =
      [KeysGet ''session'' [''alice@s.whatsapp.net'', ''bob@s.whatsapp.net''],
       Query (prekeyQuery exampleEnv [''alice@s.whatsapp.net'', ''bob@s.whatsapp.net''])]"
proof -
  let ?J = "[''alice@s.whatsapp.net'', ''bob@s.whatsapp.net'']"
  let ?s' = "initialState
      \<lparr>verifiedSessionsCache := ?J,
       trace := [KeysGet ''session'' ?J, Query (prekeyQuery exampleEnv ?J)]\<rparr>"
  have first: "assertSessions exampleEnv ?J False initialState = (Inr True, ?s')"
    by (rule assertSessions_example)
  have "set (verifiedSessionsCache ?s') \<subseteq> set (verifiedSessionsCache ?s')"
    by simp
  from assertSessions_twice[OF first this, of exampleEnv]
  have second: "assertSessions exampleEnv ?J False ?s' = (Inr False, ?s')"
    by simp
  show ?thesis
    using first second by simp
qed

subsection \<open>The aggressive cleanup of stored sender keys\<close>

lemma cleanupKey_map_of:
  "map_of (fst (cleanupKey codec maxStates keyId keyData acc)) key =
     (if key = keyId
      then (case keyUpdate codec maxStates keyData of None \<Rightarrow> map_of acc keyId | Some u \<Rightarrow> Some u)
      else map_of acc key)"
  by (auto simp: cleanupKey_def keyUpdate_def Let_def update_conv'
      split: sum.splits js_value.splits)

lemma cleanupKey_changed:
  "snd (cleanupKey codec maxStates keyId keyData acc) \<longleftrightarrow> keyUpdate codec maxStates keyData \<noteq> None"
  by (auto simp: cleanupKey_def keyUpdate_def Let_def update_conv'
      split: sum.splits js_value.splits)

lemma cleanupKey_distinct:
  "distinct (map fst acc) \<Longrightarrow> distinct (map fst (fst (cleanupKey codec maxStates keyId keyData acc)))"
  by (auto simp: cleanupKey_def Let_def distinct_update split: sum.splits js_value.splits)

lemma cleanupKeys_distinct:
  "distinct (map fst (fst acc)) \<Longrightarrow>
     distinct (map fst (fst (cleanupKeys codec maxStates entries acc)))"
proof (induction entries arbitrary: acc)
  case Nil
  then show ?case by simp
next
  case (Cons entry entries)
  obtain keyId keyData where entry: "entry = (keyId, keyData)"
    by (cases entry) auto
  obtain upd changed where acc: "acc = (upd, changed)"
    by (cases acc) auto
  show ?case
  proof (cases "truthy (Some keyData)")
    case True
    obtain upd' changed' where step: "cleanupKey codec maxStates keyId keyData upd = (upd', changed')"
      by (cases "cleanupKey codec maxStates keyId keyData upd") auto
    have "distinct (map fst upd')"
      using cleanupKey_distinct[of upd codec maxStates keyId keyData] Cons.prems acc step by simp
    then show ?thesis
      using Cons.IH[of "(upd', changed \<or> changed')"] entry acc True step by simp
  next
    case False
    then show ?thesis
      using Cons.IH[of acc] Cons.prems entry acc by simp
  qed
qed

lemma cleanupKeys_other:
  "key \<notin> fst ` set entries \<Longrightarrow>
     map_of (fst (cleanupKeys codec maxStates entries acc)) key = map_of (fst acc) key"
proof (induction entries arbitrary: acc)
  case Nil
  then show ?case by simp
next
  case (Cons entry entries)
  obtain keyId keyData where entry: "entry = (keyId, keyData)"
    by (cases entry) auto
  obtain upd changed where acc: "acc = (upd, changed)"
    by (cases acc) auto
  have ne: "key \<noteq> keyId" and rest: "key \<notin> fst ` set entries"
    using Cons.prems entry by auto
  show ?case
  proof (cases "truthy (Some keyData)")
    case True
    obtain upd' changed' where step: "cleanupKey codec maxStates keyId keyData upd = (upd', changed')"
      by (cases "cleanupKey codec maxStates keyId keyData upd") auto
    have "map_of upd' key = map_of upd key"
      using cleanupKey_map_of[of codec maxStates keyId keyData upd key] step ne by simp
    then show ?thesis
      using Cons.IH[OF rest, of "(upd', changed \<or> changed')"] entry acc True step by simp
  next
    case False
    then show ?thesis
      using Cons.IH[OF rest, of acc] entry acc by simp
  qed
qed

lemma cleanupKeys_entry:
  assumes "distinct (map fst entries)" and "(key, keyData) \<in> set entries"
  shows "map_of (fst (cleanupKeys codec maxStates entries acc)) key =
     (if truthy (Some keyData)
      then (case keyUpdate codec maxStates keyData of
              None \<Rightarrow> map_of (fst acc) key | Some u \<Rightarrow> Some u)
      else map_of (fst acc) key)"
  using assms
proof (induction entries arbitrary: acc)
  case Nil
  then show ?case by simp
next
  case (Cons entry entries)
  obtain keyId data where entry: "entry = (keyId, data)"
    by (cases entry) auto
  obtain upd changed where acc: "acc = (upd, changed)"
    by (cases acc) auto
  obtain upd' changed' where step: "cleanupKey codec maxStates keyId data upd = (upd', changed')"
    by (cases "cleanupKey codec maxStates keyId data upd") auto
  define acc' where
    "acc' = (if truthy (Some data) then (upd', changed \<or> changed') else (upd, changed))"
  have unfold: "cleanupKeys codec maxStates (entry # entries) acc =
      cleanupKeys codec maxStates entries acc'"
    using entry acc step by (simp add: acc'_def)
  have dist: "distinct (map fst entries)" and fresh: "keyId \<notin> fst ` set entries"
    using Cons.prems(1) entry by auto
  show ?case
  proof (cases "(key, keyData) \<in> set entries")
    case True
    then have "key \<noteq> keyId"
      using fresh by force
    then have "map_of (fst acc') key = map_of (fst acc) key"
      using cleanupKey_map_of[of codec maxStates keyId data upd key] step acc
      by (simp add: acc'_def)
    then show ?thesis
      using Cons.IH[OF dist True, of acc'] unfold by (auto split: option.splits)
  next
    case False
    then have here: "key = keyId" "keyData = data"
      using Cons.prems(2) entry by auto
    have "map_of (fst (cleanupKeys codec maxStates entries acc')) key = map_of (fst acc') key"
      using cleanupKeys_other[of key entries] fresh here by simp
    moreover have "map_of (fst acc') key =
        (if truthy (Some keyData)
         then (case keyUpdate codec maxStates keyData of
                 None \<Rightarrow> map_of (fst acc) key | Some u \<Rightarrow> Some u)
         else map_of (fst acc) key)"
      using cleanupKey_map_of[of codec maxStates keyId data upd key] step acc here
      by (auto simp: acc'_def split: option.splits)
    ultimately show ?thesis
      using unfold by simp
  qed
qed

lemma cleanupKeys_changed:
  "snd (cleanupKeys codec maxStates entries acc) \<longleftrightarrow>
     snd acc \<or> (\<exists>entry \<in> set entries. truthy (Some (snd entry))
                    \<and> keyUpdate codec maxStates (snd entry) \<noteq> None)"
proof (induction entries arbitrary: acc)
  case Nil
  then show ?case by simp
next
  case (Cons entry entries)
  obtain keyId data where entry: "entry = (keyId, data)"
    by (cases entry) auto
  obtain upd changed where acc: "acc = (upd, changed)"
    by (cases acc) auto
  obtain upd' changed' where step: "cleanupKey codec maxStates keyId data upd = (upd', changed')"
    by (cases "cleanupKey codec maxStates keyId data upd") auto
  have changed': "changed' \<longleftrightarrow> keyUpdate codec maxStates data \<noteq> None"
    using cleanupKey_changed[of codec maxStates keyId data upd] step by simp
  show ?case
  proof (cases "truthy (Some data)")
    case True
    then show ?thesis
      using Cons.IH[of "(upd', changed \<or> changed')"] entry acc step changed' by auto
  next
    case False
    then show ?thesis
      using Cons.IH[of acc] entry acc by auto
  qed
qed

lemma keysSet_map_of:
  "distinct (map fst patch) \<Longrightarrow>
     map_of (keysSet patch store) key =
       (case map_of patch key of
          None \<Rightarrow> map_of store key
        | Some None \<Rightarrow> None
        | Some (Some v) \<Rightarrow> Some v)"
proof (induction patch store rule: keysSet.induct)
  case (1 store)
  then show ?case by simp
next
  case (2 k patch store)
  then have "map_of patch k = None"
    by (simp add: map_of_eq_None_iff)
  then show ?case
    using 2 by (auto simp: delete_conv' split: option.splits)
next
  case (3 k v patch store)
  then have "map_of patch k = None"
    by (simp add: map_of_eq_None_iff)
  then show ?case
    using 3 by (auto simp: update_conv' split: option.splits)
qed

text \<open>The store after the key pass, at a key with a truthy value.\<close>

lemma keyPass_at_key:
  assumes "distinct (map fst store)" and "map_of store key = Some keyData"
    and "truthy (Some keyData)" and "aggressive options = Some True"
  shows "map_of (cleanupSenderKeysKeyPass codec options store) key =
     (case keyUpdate codec (case maxStatesPerGroup options of None \<Rightarrow> 5 | Some m \<Rightarrow> m) keyData of
        None \<Rightarrow> Some keyData
      | Some None \<Rightarrow> None
      | Some (Some v) \<Rightarrow> Some v)"
proof -
  define maxStates where
    "maxStates = (case maxStatesPerGroup options of None \<Rightarrow> (5::int) | Some m \<Rightarrow> m)"
  obtain patch changed where run: "cleanupKeys codec maxStates store ([], False) = (patch, changed)"
    by (cases "cleanupKeys codec maxStates store ([], False)") auto
  have mem: "(key, keyData) \<in> set store"
    using assms(2) by (rule map_of_SomeD)
  have at: "map_of patch key = keyUpdate codec maxStates keyData"
    using cleanupKeys_entry[OF assms(1) mem, of codec maxStates "([], False)"] run assms(3)
    by (simp split: option.splits)
  have dist: "distinct (map fst patch)"
    using cleanupKeys_distinct[of "([], False)" codec maxStates store] run by simp
  show ?thesis
  proof (cases changed)
    case True
    then have "cleanupSenderKeysKeyPass codec options store = keysSet patch store"
      using run assms(4)
      by (simp add: cleanupSenderKeysKeyPass_def cleanupCorruptedSenderKeys_def
          maxStates_def[symmetric])
    then show ?thesis
      using keysSet_map_of[OF dist, of store key] at assms(2)
      by (simp add: maxStates_def[symmetric] split: option.splits)
  next
    case False
    have "keyUpdate codec maxStates keyData = None"
    proof (rule ccontr)
      assume "keyUpdate codec maxStates keyData \<noteq> None"
      then have "map_of patch key \<noteq> None"
        using at by simp
      moreover have "\<not> snd (cleanupKeys codec maxStates store ([], False))"
        using False run by simp
      ultimately show False
        using cleanupKeys_changed[of codec maxStates store "([], False)"] mem assms(3) at
        by force
    qed
    moreover have "cleanupSenderKeysKeyPass codec options store = store"
      using False run assms(4)
      by (simp add: cleanupSenderKeysKeyPass_def cleanupCorruptedSenderKeys_def
          maxStates_def[symmetric])
    ultimately show ?thesis
      using assms(2) by (simp add: maxStates_def[symmetric])
  qed
qed


lemma keyUpdate_cases:
  "keyUpdate codec maxStates keyData =
     (case decodeKeyData codec keyData of
        Inl e \<Rightarrow> Some None
      | Inr (JArray states) \<Rightarrow>
          if states = [] then Some None
          else if length (filter janitorValidState states) \<noteq> length states
          then (if filter janitorValidState states = [] then Some None
                else Some (Some (encodeStates codec (filter janitorValidState states))))
          else if int (length states) > maxStates
          then Some (Some (encodeStates codec (jsSlice (- maxStates) states)))
          else None
      | Inr other \<Rightarrow> Some None)"
  by (auto simp: keyUpdate_def cleanupKey_def Let_def split: sum.splits js_value.splits)

text \<open>
  C6, as the code has it. In aggressive mode, for a key of the \<open>sender-key\<close> store
  with a truthy value: when the value does not decode, or decodes to something that is
  not an array, or to an empty array, the key is deleted. Otherwise the states are
  filtered by the check of the cleanup itself: when none passes, the key is deleted;
  when all pass and there are more than \<open>maxStatesPerGroup\<close> of them (5 when the
  option is not given), \<open>states.slice(-maxStatesPerGroup)\<close> is written, which is the
  last \<open>maxStatesPerGroup\<close> states when \<open>maxStatesPerGroup\<close> is above zero, all
  the states when it is zero, and the states from the index \<open>-maxStatesPerGroup\<close> on
  when it is below zero; when all pass and there are not more than
  \<open>maxStatesPerGroup\<close>, the value is left as it is; when some pass and some fail,
  and at most \<open>maxStatesPerGroup\<close> pass, the passing states are written. The check
  asks for a numeric \<open>senderKeyId\<close>, a truthy \<open>senderChainKey\<close> with a numeric
  \<open>iteration\<close> and a truthy \<open>seed\<close>, and a truthy \<open>senderSigningKey\<close> with a
  truthy \<open>public\<close>.
\<close>

theorem cleanup_key_pass:
  assumes "distinct (map fst store)" and "map_of store key = Some keyData"
    and "truthy (Some keyData)" and "aggressive options = Some True"
  shows "(case decodeKeyData codec keyData of
            Inr (JArray states) \<Rightarrow>
              if states = [] then
                map_of (cleanupSenderKeysKeyPass codec options store) key = None
              else if filter janitorValidState states = [] then
                map_of (cleanupSenderKeysKeyPass codec options store) key = None
              else if length (filter janitorValidState states) = length states then
                (if int (length states)
                      > (case maxStatesPerGroup options of None \<Rightarrow> 5 | Some m \<Rightarrow> m)
                 then map_of (cleanupSenderKeysKeyPass codec options store) key =
                        Some (encodeStates codec
                          (if 0 < (case maxStatesPerGroup options of None \<Rightarrow> 5 | Some m \<Rightarrow> m)
                           then drop (length states
                                  - nat (case maxStatesPerGroup options of None \<Rightarrow> 5 | Some m \<Rightarrow> m))
                                  states
                           else drop (nat (- (case maxStatesPerGroup options of
                                                None \<Rightarrow> 5 | Some m \<Rightarrow> m)))
                                  states))
                 else map_of (cleanupSenderKeysKeyPass codec options store) key = Some keyData)
              else if int (length (filter janitorValidState states))
                        \<le> (case maxStatesPerGroup options of None \<Rightarrow> 5 | Some m \<Rightarrow> m)
              then map_of (cleanupSenderKeysKeyPass codec options store) key =
                     Some (encodeStates codec (filter janitorValidState states))
              else True
          | other \<Rightarrow> map_of (cleanupSenderKeysKeyPass codec options store) key = None)
     \<and> (janitorValidState state \<longleftrightarrow>
          truthy (Some state)
          \<and> isNumber (getMember (Some state) ''senderKeyId'')
          \<and> truthy (getMember (Some state) ''senderChainKey'')
          \<and> isNumber (getMember (getMember (Some state) ''senderChainKey'') ''iteration'')
          \<and> truthy (getMember (getMember (Some state) ''senderChainKey'') ''seed'')
          \<and> truthy (getMember (Some state) ''senderSigningKey'')
          \<and> truthy (getMember (getMember (Some state) ''senderSigningKey'') ''public''))"
proof (intro conjI impI)
  have at: "map_of (cleanupSenderKeysKeyPass codec options store) key =
     (case keyUpdate codec (case maxStatesPerGroup options of None \<Rightarrow> 5 | Some m \<Rightarrow> m) keyData of
        None \<Rightarrow> Some keyData
      | Some None \<Rightarrow> None
      | Some (Some v) \<Rightarrow> Some v)"
    using assms by (rule keyPass_at_key)
  show "case decodeKeyData codec keyData of
            Inr (JArray states) \<Rightarrow>
              if states = [] then
                map_of (cleanupSenderKeysKeyPass codec options store) key = None
              else if filter janitorValidState states = [] then
                map_of (cleanupSenderKeysKeyPass codec options store) key = None
              else if length (filter janitorValidState states) = length states then
                (if int (length states)
                      > (case maxStatesPerGroup options of None \<Rightarrow> 5 | Some m \<Rightarrow> m)
                 then map_of (cleanupSenderKeysKeyPass codec options store) key =
                        Some (encodeStates codec
                          (if 0 < (case maxStatesPerGroup options of None \<Rightarrow> 5 | Some m \<Rightarrow> m)
                           then drop (length states
                                  - nat (case maxStatesPerGroup options of None \<Rightarrow> 5 | Some m \<Rightarrow> m))
                                  states
                           else drop (nat (- (case maxStatesPerGroup options of
                                                None \<Rightarrow> 5 | Some m \<Rightarrow> m)))
                                  states))
                 else map_of (cleanupSenderKeysKeyPass codec options store) key = Some keyData)
              else if int (length (filter janitorValidState states))
                        \<le> (case maxStatesPerGroup options of None \<Rightarrow> 5 | Some m \<Rightarrow> m)
              then map_of (cleanupSenderKeysKeyPass codec options store) key =
                     Some (encodeStates codec (filter janitorValidState states))
              else True
          | other \<Rightarrow> map_of (cleanupSenderKeysKeyPass codec options store) key = None"
    unfolding at keyUpdate_cases
    by (auto simp: jsSlice_def split: sum.splits js_value.splits)
next
  show "janitorValidState state \<longleftrightarrow>
          truthy (Some state)
          \<and> isNumber (getMember (Some state) ''senderKeyId'')
          \<and> truthy (getMember (Some state) ''senderChainKey'')
          \<and> isNumber (getMember (getMember (Some state) ''senderChainKey'') ''iteration'')
          \<and> truthy (getMember (getMember (Some state) ''senderChainKey'') ''seed'')
          \<and> truthy (getMember (Some state) ''senderSigningKey'')
          \<and> truthy (getMember (getMember (Some state) ''senderSigningKey'') ''public'')"
    by (simp add: janitorValidState_def)
qed

lemma goodState_valid: "janitorValidState (goodState keyId)"
  by (simp add: janitorValidState_def goodState_def)

text \<open>
  Seven well-formed states under one key, with the default limit: the last five are
  written back.
\<close>

theorem cleanup_key_pass_witness:
  "distinct (map fst [(''g1::me::0'', JArray (map goodState [1, 2, 3, 4, 5, 6, 7]))])
   \<and> map_of [(''g1::me::0'', JArray (map goodState [1, 2, 3, 4, 5, 6, 7]))] ''g1::me::0'' =
       Some (JArray (map goodState [1, 2, 3, 4, 5, 6, 7]))
   \<and> truthy (Some (JArray (map goodState [1, 2, 3, 4, 5, 6, 7])))
   \<and> aggressive aggressiveOptions = Some True
   \<and> map_of (cleanupSenderKeysKeyPass exampleCodec aggressiveOptions
               [(''g1::me::0'', JArray (map goodState [1, 2, 3, 4, 5, 6, 7]))]) ''g1::me::0'' =
       Some (encodeStates exampleCodec (map goodState [3, 4, 5, 6, 7]))"
proof -
  let ?stored = "JArray (map goodState [1, 2, 3, 4, 5, 6, 7])"
  let ?store = "[(''g1::me::0'', ?stored)]"
  have d: "distinct (map fst ?store)" by simp
  have m: "map_of ?store ''g1::me::0'' = Some ?stored" by simp
  have t: "truthy (Some ?stored)" by simp
  have a: "aggressive aggressiveOptions = Some True" by (simp add: aggressiveOptions_def)
  have dec: "\<And>xs. decodeKeyData exampleCodec (JArray xs) = Inr (JArray xs)"
    by (simp add: decodeKeyData_def)
  have "map_of (cleanupSenderKeysKeyPass exampleCodec aggressiveOptions ?store) ''g1::me::0'' =
      Some (encodeStates exampleCodec (map goodState [3, 4, 5, 6, 7]))"
    using cleanup_key_pass[OF d m t a, of exampleCodec JNull]
    by (simp add: dec goodState_valid aggressiveOptions_def)
  then show ?thesis
    using d m t a by blast
qed

text \<open>
  A stored state with key id \<open>0\<close> is not valid in the spec's sense, yet the cleanup
  keeps it: the key that holds it alone is neither filtered nor deleted.
\<close>

theorem cleanup_keeps_invalid_state:
  "\<not> specValidState zeroIdState
   \<and> janitorValidState zeroIdState
   \<and> cleanupSenderKeysKeyPass exampleCodec aggressiveOptions
        [(''g1::me::0'', JArray [zeroIdState])] = [(''g1::me::0'', JArray [zeroIdState])]"
  by (simp add: specValidState_def janitorValidState_def zeroIdState_def
      cleanupSenderKeysKeyPass_def cleanupCorruptedSenderKeys_def cleanupKey_def
      decodeKeyData_def aggressiveOptions_def Let_def)

text \<open>
  When some states fail the check and more than the limit pass, all the passing states
  are written, more than the limit: the write of the trimmed array is replaced by the
  write of the filtered one.
\<close>

lemma cleanup_mixed_exceeds_limit:
  "cleanupSenderKeysKeyPass exampleCodec aggressiveOptions
     [(''g1::me::0'', JArray (JNull # map goodState [1, 2, 3, 4, 5, 6]))] =
   [(''g1::me::0'', encodeStates exampleCodec (map goodState [1, 2, 3, 4, 5, 6]))]"
  by (simp add: cleanupSenderKeysKeyPass_def cleanupCorruptedSenderKeys_def cleanupKey_def
      decodeKeyData_def aggressiveOptions_def Let_def goodState_valid jsSlice_def
      janitorValidState_def[of JNull] update_conv')

text \<open>
  With \<open>maxStatesPerGroup\<close> zero, seven well-formed states under one key are all
  written back: \<open>slice(-0)\<close> is the whole array.
\<close>

lemma cleanup_zero_limit_keeps_all:
  "cleanupSenderKeysKeyPass exampleCodec (aggressiveOptions\<lparr>maxStatesPerGroup := Some 0\<rparr>)
     [(''g1::me::0'', JArray (map goodState [1, 2, 3, 4, 5, 6, 7]))] =
   [(''g1::me::0'', encodeStates exampleCodec (map goodState [1, 2, 3, 4, 5, 6, 7]))]"
  by (simp add: cleanupSenderKeysKeyPass_def cleanupCorruptedSenderKeys_def cleanupKey_def
      decodeKeyData_def aggressiveOptions_def Let_def goodState_valid jsSlice_def update_conv')

subsection \<open>Effects of actions\<close>

lemma withinI:
  assumes "\<And>s. R s (snd (m s))"
    and "\<And>s. \<exists>evs. trace (snd (m s)) = trace s @ evs \<and> list_all Ev evs"
  shows "within R Ev m"
  using assms by (simp add: within_def)

lemma withinD:
  assumes "within R Ev m" and "m s = (r, s')"
  shows "R s s'" and "\<exists>evs. trace s' = trace s @ evs \<and> list_all Ev evs"
  using assms by (auto simp: within_def dest: spec[of _ s])

lemma within_succeed: "reflp R \<Longrightarrow> within R Ev (succeed v)"
  by (simp add: within_def succeed_def reflp_def)

lemma within_throw: "reflp R \<Longrightarrow> within R Ev (throw e)"
  by (simp add: within_def throw_def reflp_def)

lemma within_fromResult: "reflp R \<Longrightarrow> within R Ev (fromResult r)"
  by (simp add: within_def fromResult_def reflp_def)

lemma within_andThen:
  assumes "transp R" and "within R Ev m" and "\<And>v. within R Ev (k v)"
  shows "within R Ev (andThen m k)"
proof (rule withinI)
  fix s
  obtain r s1 where m: "m s = (r, s1)"
    by (cases "m s") auto
  from withinD[OF assms(2) m] obtain evs1
    where r1: "R s s1" and t1: "trace s1 = trace s @ evs1" and e1: "list_all Ev evs1"
    by auto
  show "R s (snd (andThen m k s))"
  proof (cases r)
    case (Inl e)
    then show ?thesis using m r1 by (simp add: andThen_def)
  next
    case (Inr v)
    obtain r2 s2 where k: "k v s1 = (r2, s2)"
      by (cases "k v s1") auto
    from withinD(1)[OF assms(3) k] have "R s1 s2" .
    then have "R s s2"
      using r1 assms(1) by (meson transpD)
    then show ?thesis using m Inr k by (simp add: andThen_def)
  qed
  show "\<exists>evs. trace (snd (andThen m k s)) = trace s @ evs \<and> list_all Ev evs"
  proof (cases r)
    case (Inl e)
    then show ?thesis using m t1 e1 by (auto simp: andThen_def)
  next
    case (Inr v)
    obtain r2 s2 where k: "k v s1 = (r2, s2)"
      by (cases "k v s1") auto
    from withinD(2)[OF assms(3) k] obtain evs2
      where "trace s2 = trace s1 @ evs2" and "list_all Ev evs2"
      by auto
    then have "trace s2 = trace s @ (evs1 @ evs2) \<and> list_all Ev (evs1 @ evs2)"
      using t1 e1 by simp
    then show ?thesis using m Inr k by (auto simp: andThen_def simp del: append_assoc)
  qed
qed

lemma within_both:
  assumes "transp R" and "within R Ev m1" and "within R Ev m2"
  shows "within R Ev (both m1 m2)"
proof (rule withinI)
  fix s
  obtain r1 s1 where m1: "m1 s = (r1, s1)"
    by (cases "m1 s") auto
  obtain r2 s2 where m2: "m2 s1 = (r2, s2)"
    by (cases "m2 s1") auto
  from withinD[OF assms(2) m1] obtain evs1
    where a: "R s s1" "trace s1 = trace s @ evs1" "list_all Ev evs1"
    by auto
  from withinD[OF assms(3) m2] obtain evs2
    where b: "R s1 s2" "trace s2 = trace s1 @ evs2" "list_all Ev evs2"
    by auto
  have s2: "snd (both m1 m2 s) = s2"
    using m1 m2 by (simp add: both_def)
  show "R s (snd (both m1 m2 s))"
    using a(1) b(1) assms(1) s2 by (metis transpD)
  have "trace s2 = trace s @ (evs1 @ evs2) \<and> list_all Ev (evs1 @ evs2)"
    using a b by simp
  then show "\<exists>evs. trace (snd (both m1 m2 s)) = trace s @ evs \<and> list_all Ev evs"
    using s2 by blast
qed

lemma within_allOf:
  assumes "reflp R" and "transp R" and "\<And>m. m \<in> set ms \<Longrightarrow> within R Ev m"
  shows "within R Ev (allOf ms)"
  using assms(3)
proof (induction ms)
  case Nil
  show ?case
    using assms(1) by (simp add: within_def reflp_def)
next
  case (Cons m ms)
  have rest: "within R Ev (allOf ms)"
    using Cons by simp
  have first: "within R Ev m"
    using Cons.prems by simp
  show ?case
  proof (rule withinI)
    fix s
    obtain r1 s1 where m1: "m s = (r1, s1)"
      by (cases "m s") auto
    obtain r2 s2 where m2: "allOf ms s1 = (r2, s2)"
      by (cases "allOf ms s1") auto
    from withinD[OF first m1] obtain evs1
      where a: "R s s1" "trace s1 = trace s @ evs1" "list_all Ev evs1"
      by auto
    from withinD[OF rest m2] obtain evs2
      where b: "R s1 s2" "trace s2 = trace s1 @ evs2" "list_all Ev evs2"
      by auto
    have s2: "snd (allOf (m # ms) s) = s2"
      using m1 m2 by simp
    show "R s (snd (allOf (m # ms) s))"
      using a(1) b(1) assms(2) s2 by (metis transpD)
    have "trace s2 = trace s @ (evs1 @ evs2) \<and> list_all Ev (evs1 @ evs2)"
      using a b by simp
    then show "\<exists>evs. trace (snd (allOf (m # ms) s)) = trace s @ evs \<and> list_all Ev evs"
      using s2 by blast
  qed
qed

lemma within_weaken:
  assumes "within R Ev m" and "\<And>s s'. R s s' \<Longrightarrow> R' s s'" and "\<And>ev. Ev ev \<Longrightarrow> Ev' ev"
  shows "within R' Ev' m"
proof (rule withinI)
  fix s
  show "R' s (snd (m s))"
    using assms(1,2) by (simp add: within_def)
  obtain evs where "trace (snd (m s)) = trace s @ evs" and "list_all Ev evs"
    using assms(1) by (auto simp: within_def)
  then show "\<exists>evs. trace (snd (m s)) = trace s @ evs \<and> list_all Ev' evs"
    using assms(3) by (auto simp: list_all_iff)
qed

lemma frame_refl: "frame R \<Longrightarrow> reflp R"
  and frame_trans: "frame R \<Longrightarrow> transp R"
  and frame_trace: "frame R \<Longrightarrow> R s (s\<lparr>trace := t\<rparr>)"
  and frame_verified: "frame R \<Longrightarrow> R s (s\<lparr>verifiedSessionsCache := v\<rparr>)"
  and frame_sessions: "frame R \<Longrightarrow> R s (s\<lparr>sessionStore := w\<rparr>)"
  and frame_devices: "frame R \<Longrightarrow> R s (s\<lparr>userDevicesCache := u\<rparr>)"
  and frame_media: "frame R \<Longrightarrow> R s (s\<lparr>mediaTypeCache := c\<rparr>)"
  by (simp_all add: frame_def)

lemma within_emit: "frame R \<Longrightarrow> Ev ev \<Longrightarrow> within R Ev (emit ev)"
  by (rule withinI) (simp_all add: emit_def frame_trace)

lemma within_emitAll: "frame R \<Longrightarrow> list_all Ev evs \<Longrightarrow> within R Ev (emitAll evs)"
  by (rule withinI) (simp_all add: emitAll_def frame_trace)

lemma within_doSendNode: "frame R \<Longrightarrow> Ev (SendNode node) \<Longrightarrow> within R Ev (doSendNode env node)"
  unfolding doSendNode_def
  by (intro within_andThen within_emit within_fromResult frame_trans frame_refl)

lemma within_doQuery: "frame R \<Longrightarrow> Ev (Query node) \<Longrightarrow> within R Ev (doQuery env node)"
  unfolding doQuery_def
  by (intro within_andThen within_emit within_fromResult frame_trans frame_refl)


lemma within_pointwise:
  assumes "\<And>s. \<exists>m'. within R Ev m' \<and> m s = m' s"
  shows "within R Ev m"
proof (rule withinI)
  fix s
  obtain m' where m': "within R Ev m'" "m s = m' s"
    using assms by blast
  show "R s (snd (m s))"
    using m' by (simp add: within_def)
  show "\<exists>evs. trace (snd (m s)) = trace s @ evs \<and> list_all Ev evs"
    using m' by (simp add: within_def)
qed

lemma within_state:
  assumes "\<And>s. R s (f s)" and "\<And>s. trace (f s) = trace s"
  shows "within R Ev (\<lambda>s. (r s, f s))"
  by (rule withinI) (simp_all add: assms)

lemma within_if:
  "(c \<Longrightarrow> within R Ev a) \<Longrightarrow> (\<not> c \<Longrightarrow> within R Ev b) \<Longrightarrow> within R Ev (if c then a else b)"
  by simp

lemma within_case_prod:
  "(\<And>a b. within R Ev (f a b)) \<Longrightarrow> within R Ev (case p of (a, b) \<Rightarrow> f a b)"
  by (cases p) simp

lemma within_case_option:
  "(v = None \<Longrightarrow> within R Ev a) \<Longrightarrow> (\<And>x. v = Some x \<Longrightarrow> within R Ev (f x)) \<Longrightarrow>
     within R Ev (case v of None \<Rightarrow> a | Some x \<Rightarrow> f x)"
  by (cases v) simp_all

lemmas within_rules =
  within_if within_case_prod within_case_option within_succeed within_throw within_fromResult


subsection \<open>Effects of the session assertion\<close>

lemma partitionBySession_effect:
  assumes "frame R"
  shows "partitionBySession env sessions jids acc s = (req, s') \<Longrightarrow>
     R s s' \<and> trace s' = trace s"
proof (induction jids arbitrary: acc s)
  case Nil
  then show ?case
    using frame_refl[OF assms] by (simp add: reflp_def)
next
  case (Cons jid jids)
  show ?case
  proof (cases "sessions (jidToSignalProtocolAddress (signalRepository env) jid)")
    case None
    then show ?thesis
      using Cons by simp
  next
    case (Some session)
    let ?s1 = "s\<lparr>verifiedSessionsCache := setAdd jid (verifiedSessionsCache s)\<rparr>"
    have "partitionBySession env sessions jids acc ?s1 = (req, s')"
      using Cons.prems Some by simp
    from Cons.IH[OF this] have "R ?s1 s'" and "trace s' = trace s"
      by simp_all
    moreover have "R s ?s1"
      using assms by (rule frame_verified)
    ultimately show ?thesis
      using frame_trans[OF assms] by (meson transpD)
  qed
qed

lemma storeSessions_effect:
  assumes "frame R"
  shows "R s (storeSessions installed s)
     \<and> (\<exists>evs. trace (storeSessions installed s) = trace s @ evs \<and> list_all isSessionEvent evs)"
proof (induction installed s rule: storeSessions.induct)
  case (1 s)
  show ?case
    using frame_refl[OF assms] by (simp add: reflp_def)
next
  case (2 signalId session rest s)
  let ?s1 = "s\<lparr>sessionStore := AList.update signalId session (sessionStore s),
      trace := trace s @ [KeysSet ''session'' signalId]\<rparr>"
  have "R s (s\<lparr>sessionStore := AList.update signalId session (sessionStore s)\<rparr>)"
    using assms by (rule frame_sessions)
  moreover have "R (s\<lparr>sessionStore := AList.update signalId session (sessionStore s)\<rparr>) ?s1"
    using frame_trace[OF assms, of "s\<lparr>sessionStore := AList.update signalId session (sessionStore s)\<rparr>"]
    by simp
  ultimately have step: "R s ?s1"
    using frame_trans[OF assms] by (meson transpD)
  from 2 obtain evs where rest: "R ?s1 (storeSessions rest ?s1)"
    "trace (storeSessions rest ?s1) = trace ?s1 @ evs" "list_all isSessionEvent evs"
    by auto
  have "R s (storeSessions rest ?s1)"
    using step rest(1) frame_trans[OF assms] by (meson transpD)
  moreover have "trace (storeSessions rest ?s1) = trace s @ (KeysSet ''session'' signalId # evs)"
    using rest(2) by simp
  moreover have "list_all isSessionEvent (KeysSet ''session'' signalId # evs)"
    using rest(3) by simp
  ultimately show ?case
    by (metis storeSessions.simps(2))
qed

lemma within_assertSessions:
  fixes R :: "'x SocketState_scheme \<Rightarrow> 'x SocketState_scheme \<Rightarrow> bool"
  assumes "frame R"
  shows "within R isSessionEvent (assertSessions env jids force)"
proof (rule within_pointwise)
  fix s :: "'x SocketState_scheme"
  note tr = frame_trans[OF assms] and rf = frame_refl[OF assms]
  define remaining where
    "remaining = (if \<not> force
                  then filter (\<lambda>jid. jid \<notin> set (verifiedSessionsCache s)) (uniqueInOrder jids)
                  else uniqueInOrder jids)"
  define m' :: "('x, bool) action" where
    "m' = (if length jids = 0 then succeed False
           else if \<not> force \<and> length remaining = 0 then succeed False
           else
              andThen
                (if force then succeed remaining
                 else andThen
                   (keysGetSessions
                      (map (jidToSignalProtocolAddress (signalRepository env)) remaining))
                   (\<lambda>sessions s'. case partitionBySession env sessions remaining [] s' of
                      (jidsRequiringFetch, s'') \<Rightarrow> (Inr jidsRequiringFetch, s'')))
                (\<lambda>jidsRequiringFetch.
                   if length jidsRequiringFetch \<noteq> 0 then
                     andThen (doQuery env (prekeyQuery env jidsRequiringFetch))
                       (\<lambda>result. andThen (injectE2ESessions env result)
                          (\<lambda>_. andThen (addVerified jidsRequiringFetch)
                             (\<lambda>_. succeed True)))
                   else succeed False))"
  have same: "assertSessions env jids force s = m' s"
    by (simp add: assertSessions_def m'_def remaining_def Let_def succeed_def)
  have get: "within R isSessionEvent
      (keysGetSessions (map (jidToSignalProtocolAddress (signalRepository env)) remaining))"
    unfolding keysGetSessions_def
    by (intro within_andThen tr within_emit assms within_state)
      (simp_all add: rf[unfolded reflp_def, rule_format])
  have part: "\<And>sessions. within R isSessionEvent
      (\<lambda>s'. case partitionBySession env sessions remaining [] s' of
         (jidsRequiringFetch, s'') \<Rightarrow> (Inr jidsRequiringFetch, s''))"
  proof (rule withinI)
    fix sessions and s0 :: "'x SocketState_scheme"
    obtain req s1 where p: "partitionBySession env sessions remaining [] s0 = (req, s1)"
      by (cases "partitionBySession env sessions remaining [] s0") auto
    from partitionBySession_effect[OF assms p]
    show "R s0 (snd (case partitionBySession env sessions remaining [] s0 of
         (jidsRequiringFetch, s'') \<Rightarrow> (Inr jidsRequiringFetch, s'')))"
      using p by simp
    from partitionBySession_effect[OF assms p]
    show "\<exists>evs. trace (snd (case partitionBySession env sessions remaining [] s0 of
         (jidsRequiringFetch, s'') \<Rightarrow> (Inr jidsRequiringFetch, s''))) = trace s0 @ evs
         \<and> list_all isSessionEvent evs"
      using p by simp
  qed
  have inject: "\<And>result. within R isSessionEvent (injectE2ESessions env result)"
    unfolding injectE2ESessions_def
  proof (intro within_andThen tr within_fromResult rf)
    fix result installed
    show "within R isSessionEvent (\<lambda>s. (Inr (), storeSessions installed s))"
      by (rule withinI) (simp_all add: storeSessions_effect[OF assms])
  qed
  have add: "\<And>js. within R isSessionEvent (addVerified js)"
    unfolding addVerified_def
    by (rule withinI) (simp_all add: frame_verified[OF assms])
  have "within R isSessionEvent m'"
    unfolding m'_def
    by (intro within_rules within_andThen tr rf within_doQuery assms inject add get part)
      simp_all
  then show "\<exists>m'. within R isSessionEvent m' \<and> assertSessions env jids force s = m' s"
    using same by blast
qed


subsection \<open>Pre- and postconditions of actions\<close>

lemma tripleI: "(\<And>s. P s \<Longrightarrow> Q (fst (m s)) (snd (m s))) \<Longrightarrow> triple P m Q"
  by (simp add: triple_def)

lemma tripleD: "triple P m Q \<Longrightarrow> P s \<Longrightarrow> m s = (r, s') \<Longrightarrow> Q r s'"
  by (auto simp: triple_def dest: spec[of _ s])

lemma triple_succeed: "(\<And>s. P s \<Longrightarrow> Q (Inr v) s) \<Longrightarrow> triple P (succeed v) Q"
  by (simp add: triple_def succeed_def)

lemma triple_throw: "(\<And>s. P s \<Longrightarrow> Q (Inl e) s) \<Longrightarrow> triple P (throw e) Q"
  by (simp add: triple_def throw_def)

lemma triple_fromResult: "(\<And>s. P s \<Longrightarrow> Q r s) \<Longrightarrow> triple P (fromResult r) Q"
  by (simp add: triple_def fromResult_def)

lemma triple_andThen:
  assumes "triple P m Mid"
    and "\<And>e s. Mid (Inl e) s \<Longrightarrow> Q (Inl e) s"
    and "\<And>v. triple (Mid (Inr v)) (k v) Q"
  shows "triple P (andThen m k) Q"
proof (rule tripleI)
  fix s
  assume "P s"
  obtain r s1 where m: "m s = (r, s1)"
    by (cases "m s") auto
  have mid: "Mid r s1"
    using tripleD[OF assms(1) \<open>P s\<close> m] .
  show "Q (fst (andThen m k s)) (snd (andThen m k s))"
  proof (cases r)
    case (Inl e)
    then show ?thesis
      using m mid assms(2) by (simp add: andThen_def)
  next
    case (Inr v)
    obtain r2 s2 where k: "k v s1 = (r2, s2)"
      by (cases "k v s1") auto
    have "Q r2 s2"
      using tripleD[OF assms(3) _ k] mid Inr by simp
    then show ?thesis
      using m Inr k by (simp add: andThen_def)
  qed
qed

lemma triple_weaken:
  assumes "triple P' m Q'" and "\<And>s. P s \<Longrightarrow> P' s" and "\<And>r s. Q' r s \<Longrightarrow> Q r s"
  shows "triple P m Q"
  using assms by (simp add: triple_def)

lemma triple_pure: "(C \<Longrightarrow> triple P m Q) \<Longrightarrow> triple (\<lambda>s. C \<and> P s) m Q"
  by (auto simp: triple_def)

lemma triple_if:
  "(c \<Longrightarrow> triple P a Q) \<Longrightarrow> (\<not> c \<Longrightarrow> triple P b Q) \<Longrightarrow> triple P (if c then a else b) Q"
  by simp

lemma triple_case_prod:
  "(\<And>a b. p = (a, b) \<Longrightarrow> triple P (f a b) Q) \<Longrightarrow> triple P (case p of (a, b) \<Rightarrow> f a b) Q"
  by (cases p) simp

text \<open>An invariant that a frame relation carries over is kept by every action within it.\<close>

lemma triple_of_within:
  assumes "within R Ev m" and "\<And>s s'. R s s' \<Longrightarrow> P s \<Longrightarrow> P s'"
  shows "triple P m (\<lambda>r. P)"
proof (rule tripleI)
  fix s
  assume "P s"
  moreover have "R s (snd (m s))"
    using assms(1) by (simp add: within_def)
  ultimately show "P (snd (m s))"
    using assms(2) by blast
qed

lemma triple_allOf_invariant:
  assumes "\<And>m. m \<in> set ms \<Longrightarrow> triple P m (\<lambda>r. P)"
  shows "triple P (allOf ms) (\<lambda>r. P)"
  using assms
proof (induction ms)
  case Nil
  show ?case by (simp add: triple_def)
next
  case (Cons m ms)
  show ?case
  proof (rule tripleI)
    fix s
    assume "P s"
    obtain r1 s1 where m1: "m s = (r1, s1)"
      by (cases "m s") auto
    obtain r2 s2 where m2: "allOf ms s1 = (r2, s2)"
      by (cases "allOf ms s1") auto
    have p1: "P s1"
      using tripleD[OF Cons.prems[of m] \<open>P s\<close> m1] by simp
    have rest: "triple P (allOf ms) (\<lambda>r. P)"
      using Cons by simp
    have "P s2"
      using tripleD[OF rest p1 m2] .
    then show "P (snd (allOf (m # ms) s))"
      using m1 m2 by simp
  qed
qed

text \<open>
  A transaction keeps an invariant that its body keeps, that does not look at the trace,
  and that holds again when the two stores are put back as they were at the start.
\<close>

lemma triple_transaction_invariant:
  assumes "triple P body (\<lambda>r. P)"
    and "\<And>s t. P (s\<lparr>trace := t\<rparr>) = P s"
    and "\<And>s s'. P s \<Longrightarrow> P s' \<Longrightarrow>
           P (s'\<lparr>sessionStore := sessionStore s, senderKeyMemoryStore := senderKeyMemoryStore s\<rparr>)"
  shows "triple P (transaction body) (\<lambda>r. P)"
proof (rule tripleI)
  fix s
  assume "P s"
  let ?s0 = "s\<lparr>trace := trace s @ [TransactionBegin]\<rparr>"
  obtain r s1 where b: "body ?s0 = (r, s1)"
    by (cases "body ?s0") auto
  have "P ?s0"
    using \<open>P s\<close> assms(2) by simp
  then have p1: "P s1"
    using tripleD[OF assms(1) _ b] by simp
  show "P (snd (transaction body s))"
  proof (cases r)
    case (Inr v)
    then show ?thesis
      using b p1 assms(2) by (simp add: transaction_def)
  next
    case (Inl e)
    have "P (s1\<lparr>sessionStore := sessionStore s, senderKeyMemoryStore := senderKeyMemoryStore s\<rparr>)"
      using assms(3)[OF \<open>P s\<close> p1] .
    then have "P (s1\<lparr>sessionStore := sessionStore s, senderKeyMemoryStore := senderKeyMemoryStore s,
        trace := trace s1 @ [TransactionRollback]\<rparr>)"
      using assms(2) by simp
    then show ?thesis
      using b Inl by (simp add: transaction_def)
  qed
qed


subsection \<open>Effects of the parts of a dispatch\<close>

lemma frame_step:
  "frame R \<Longrightarrow> R s s1 \<Longrightarrow> R s1 s2 \<Longrightarrow> R s s2"
  by (meson frame_trans transpD)

lemma frame_same: "frame R \<Longrightarrow> R s s"
  using frame_refl[of R] by (simp add: reflp_def)

lemma relayFrame_frame: "relayFrame R \<Longrightarrow> frame R"
  and relayFrame_extra: "relayFrame R \<Longrightarrow> R s (s\<lparr>extraAttrs := a\<rparr>)"
  and relayFrame_identity: "relayFrame R \<Longrightarrow> R s (s\<lparr>shouldIncludeDeviceIdentity := b\<rparr>)"
  by (simp_all add: relayFrame_def)

lemma within_createParticipantNodes:
  assumes "frame R"
  shows "within R (encryptsAmong jids) (createParticipantNodes env jids message extra)"
  unfolding createParticipantNodes_def
proof (intro within_rules within_andThen frame_trans[OF assms] frame_refl[OF assms]
    within_emitAll assms)
  fix patched
  show "list_all (encryptsAmong jids)
     (map (\<lambda>jid. EncryptMessage jid (encodeWAMessage env patched)) jids)"
    by (simp add: list_all_iff)
qed

lemma within_getUSyncDevices:
  assumes "frame R"
  shows "within R isDeviceQuery (getUSyncDevices env jids useCache ignoreZeroDevices)"
proof (rule withinI)
  fix s :: "'a SocketState_scheme"
  obtain deviceResults toFetch where c:
    "collectFromCache env useCache (userDevicesCache s) (uniqueInOrder jids) ([], []) =
       (deviceResults, toFetch)"
    by (cases "collectFromCache env useCache (userDevicesCache s) (uniqueInOrder jids) ([], [])")
      auto
  let ?s1 = "s\<lparr>trace := trace s @ [USyncQuery toFetch]\<rparr>"
  have r1: "R s ?s1"
    using assms by (rule frame_trace)
  have r2: "\<And>u. R s (?s1\<lparr>userDevicesCache := u\<rparr>)"
    using frame_step[OF assms r1 frame_devices[OF assms]] .
  consider (none) "jids = [] \<or> toFetch = []"
    | (failed) e where "jids \<noteq> []" "toFetch \<noteq> []"
        "executeUSyncQuery env toFetch ignoreZeroDevices = Inl e"
    | (empty) "jids \<noteq> []" "toFetch \<noteq> []"
        "executeUSyncQuery env toFetch ignoreZeroDevices = Inr None"
    | (found) extracted where "jids \<noteq> []" "toFetch \<noteq> []"
        "executeUSyncQuery env toFetch ignoreZeroDevices = Inr (Some extracted)"
    by (cases "executeUSyncQuery env toFetch ignoreZeroDevices") auto
  then have "R s (snd (getUSyncDevices env jids useCache ignoreZeroDevices s))
     \<and> (\<exists>evs. trace (snd (getUSyncDevices env jids useCache ignoreZeroDevices s)) = trace s @ evs
          \<and> list_all isDeviceQuery evs)"
  proof cases
    case none
    then have "snd (getUSyncDevices env jids useCache ignoreZeroDevices s) = s"
      using c by (auto simp: getUSyncDevices_def)
    then show ?thesis
      using frame_same[OF assms] by simp
  next
    case failed
    then have "snd (getUSyncDevices env jids useCache ignoreZeroDevices s) = ?s1"
      using c by (simp add: getUSyncDevices_def andThen_def emit_def fromResult_def)
    then show ?thesis
      using r1 by simp
  next
    case empty
    then have "snd (getUSyncDevices env jids useCache ignoreZeroDevices s) = ?s1"
      using c by (simp add: getUSyncDevices_def andThen_def emit_def fromResult_def)
    then show ?thesis
      using r1 by simp
  next
    case found
    then have "snd (getUSyncDevices env jids useCache ignoreZeroDevices s) =
        ?s1\<lparr>userDevicesCache := cacheDevices extracted (userDevicesCache ?s1)\<rparr>"
      using c by (simp add: getUSyncDevices_def andThen_def emit_def fromResult_def)
    then show ?thesis
      using r2 by simp
  qed
  then show "R s (snd (getUSyncDevices env jids useCache ignoreZeroDevices s))"
    and "\<exists>evs. trace (snd (getUSyncDevices env jids useCache ignoreZeroDevices s)) = trace s @ evs
          \<and> list_all isDeviceQuery evs"
    by simp_all
qed

lemma within_readSenderKeyMemory:
  assumes "frame R" and "Ev (KeysGet ''sender-key-memory'' [jid])"
  shows "within R Ev (readSenderKeyMemory jid)"
  unfolding readSenderKeyMemory_def
  by (intro within_andThen frame_trans[OF assms(1)] within_emit assms within_state)
    (simp_all add: frame_same[OF assms(1)])

lemma fetchGroupData_state: "snd (fetchGroupData env ctx s) = s"
  by (auto simp: fetchGroupData_def Let_def succeed_def andThen_def fromResult_def
      split: option.splits sum.splits)

lemma within_fetchGroupData:
  assumes "frame R"
  shows "within R Ev (fetchGroupData env ctx)"
  by (rule withinI) (simp_all add: fetchGroupData_state frame_same[OF assms])

lemma within_stampExtraAttrs:
  assumes "relayFrame R"
  shows "within R Ev (stampExtraAttrs env message)"
proof (rule withinI)
  fix s :: "'a RelayState_scheme"
  note f = relayFrame_frame[OF assms]
  have media: "\<And>c. R s (s\<lparr>mediaTypeCache := c\<rparr>)"
    using f by (rule frame_media)
  have step: "\<And>s1 a. R s s1 \<Longrightarrow> R s (s1\<lparr>extraAttrs := a\<rparr>)"
    using frame_step[OF f _ relayFrame_extra[OF assms]] by blast
  show "R s (snd (stampExtraAttrs env message s))"
    by (auto simp: stampExtraAttrs_def Let_def frame_same[OF f] media step
        split: option.splits)
  show "\<exists>evs. trace (snd (stampExtraAttrs env message s)) = trace s @ evs \<and> list_all Ev evs"
    by (auto simp: stampExtraAttrs_def Let_def split: option.splits)
qed


lemma sessionEvent_dispatchEvent: "isSessionEvent ev \<Longrightarrow> dispatchEvent jids ev"
  by (cases ev) simp_all

lemma encryptsAmong_dispatchEvent: "encryptsAmong jids ev \<Longrightarrow> dispatchEvent jids ev"
  by (cases ev) simp_all

lemma dispatchEvent_quiet: "dispatchEvent jids ev \<Longrightarrow> isQuiet ev"
  by (cases ev) simp_all

lemma dispatchEvent_encryptsOnly: "dispatchEvent jids ev \<Longrightarrow> encryptsOnly jids ev"
  by (cases ev) simp_all

lemma dispatchEvent_mono: "set jids \<subseteq> set jids' \<Longrightarrow> dispatchEvent jids ev \<Longrightarrow> dispatchEvent jids' ev"
  by (cases ev) auto

lemma within_writeSenderKeyMemory:
  assumes "frame R" and "\<And>s v. R s (s\<lparr>senderKeyMemoryStore := v\<rparr>)"
    and "Ev (KeysSet ''sender-key-memory'' jid)"
  shows "within R Ev (writeSenderKeyMemory jid memory)"
  unfolding writeSenderKeyMemory_def
  by (intro within_andThen frame_trans[OF assms(1)] within_emit assms(1,3) within_state)
    (simp_all add: assms(2))

text \<open>
  The group branch asks for encryptions for the sender-key jids only, and sends nothing
  itself.
\<close>

lemma within_groupDispatch:
  fixes R :: "'x RelayState_scheme \<Rightarrow> 'x RelayState_scheme \<Rightarrow> bool"
  assumes "relayFrame R" and "\<And>s v. R s (s\<lparr>senderKeyMemoryStore := v\<rparr>)"
  shows "within R (dispatchEvent senderKeyJids) (groupDispatch env ctx devices senderKeyJids)"
proof -
  note f = relayFrame_frame[OF assms(1)]
  note tr = frame_trans[OF f] and rf = frame_refl[OF f]
  have sessions: "within R (dispatchEvent senderKeyJids) (assertSessions env senderKeyJids False)"
    using within_assertSessions[OF f]
    by (rule within_weaken) (simp_all add: sessionEvent_dispatchEvent)
  have nodes: "\<And>msg. within R (dispatchEvent senderKeyJids)
      (\<lambda>s. createParticipantNodes env senderKeyJids msg (extraAttrs s) s)"
  proof (rule within_pointwise)
    fix msg and s :: "'x RelayState_scheme"
    have "within R (dispatchEvent senderKeyJids)
        (createParticipantNodes env senderKeyJids msg (extraAttrs s))"
      using within_createParticipantNodes[OF f]
      by (rule within_weaken) (simp_all add: encryptsAmong_dispatchEvent)
    then show "\<exists>m'. within R (dispatchEvent senderKeyJids) m'
        \<and> createParticipantNodes env senderKeyJids msg (extraAttrs s) s = m' s"
      by blast
  qed
  have flag: "\<And>b. within R (dispatchEvent senderKeyJids)
      (\<lambda>s. (Inr (), s\<lparr>shouldIncludeDeviceIdentity := shouldIncludeDeviceIdentity s \<or> b\<rparr>))"
    by (rule within_state) (simp_all add: relayFrame_identity[OF assms(1)])
  show ?thesis
    unfolding groupDispatch_def
    by (intro within_andThen within_both within_rules tr rf within_fetchGroupData
        within_readSenderKeyMemory within_emit within_writeSenderKeyMemory f sessions nodes flag
        assms(2))
      simp_all
qed

text \<open>The direct branch sends nothing itself either.\<close>

lemma within_directDispatch:
  fixes R :: "'x RelayState_scheme \<Rightarrow> 'x RelayState_scheme \<Rightarrow> bool"
  assumes "relayFrame R"
  shows "within R isQuiet (directDispatch env ctx devices)"
proof -
  note f = relayFrame_frame[OF assms(1)]
  note tr = frame_trans[OF f] and rf = frame_refl[OF f]
  have sessions: "\<And>jids. within R isQuiet (assertSessions env jids False)"
    using within_assertSessions[OF f]
    by (rule within_weaken) (auto dest: sessionEvent_dispatchEvent[of _ "[]"] dispatchEvent_quiet)
  have nodes: "\<And>jids msg extra. within R isQuiet (createParticipantNodes env jids msg extra)"
    using within_createParticipantNodes[OF f]
    by (rule within_weaken) (auto dest: encryptsAmong_dispatchEvent dispatchEvent_quiet)
  have built: "\<And>meJids otherJids. within R isQuiet
      (\<lambda>s. allOf
         ((if length meJids \<noteq> 0
           then [createParticipantNodes env meJids (meMsg ctx) (extraAttrs s)]
           else [])
          @ (if length otherJids \<noteq> 0
             then [createParticipantNodes env otherJids (ctxMessage ctx) (extraAttrs s)]
             else []))
         s)"
  proof (rule within_pointwise)
    fix meJids otherJids and s :: "'x RelayState_scheme"
    let ?ms = "(if length meJids \<noteq> 0
           then [createParticipantNodes env meJids (meMsg ctx) (extraAttrs s)]
           else [])
          @ (if length otherJids \<noteq> 0
             then [createParticipantNodes env otherJids (ctxMessage ctx) (extraAttrs s)]
             else [])"
    have "within R isQuiet (allOf ?ms)"
      by (rule within_allOf[OF rf tr]) (auto simp: nodes split: if_splits)
    then show "\<exists>m'. within R isQuiet m' \<and> allOf ?ms s = m' s"
      by blast
  qed
  have flag: "\<And>g. within R isQuiet
      (\<lambda>s. (Inr (), s\<lparr>shouldIncludeDeviceIdentity := g (shouldIncludeDeviceIdentity s)\<rparr>))"
    by (rule within_state) (simp_all add: relayFrame_identity[OF assms(1)])
  show ?thesis
    unfolding directDispatch_def
    by (intro within_andThen within_rules tr rf sessions built flag)
qed


lemma andThen_assoc: "andThen (andThen m f) g = andThen m (\<lambda>x. andThen (f x) g)"
  by (rule ext) (simp add: andThen_def split: prod.splits sum.splits)

lemma within_transaction:
  assumes "frame R" and "\<And>s v. R s (s\<lparr>senderKeyMemoryStore := v\<rparr>)"
    and "Ev TransactionBegin" and "Ev TransactionCommit" and "Ev TransactionRollback"
    and "within R Ev body"
  shows "within R Ev (transaction body)"
proof (rule withinI)
  fix s :: "'a SocketState_scheme"
  let ?s0 = "s\<lparr>trace := trace s @ [TransactionBegin]\<rparr>"
  obtain r s1 where b: "body ?s0 = (r, s1)"
    by (cases "body ?s0") auto
  from withinD[OF assms(6) b] obtain evs
    where r1: "R ?s0 s1" and t1: "trace s1 = trace ?s0 @ evs" and e1: "list_all Ev evs"
    by auto
  have r0: "R s s1"
    using frame_step[OF assms(1) frame_trace[OF assms(1)] r1] .
  have restored: "R s1 (s1\<lparr>sessionStore := sessionStore s,
      senderKeyMemoryStore := senderKeyMemoryStore s\<rparr>)"
    using frame_step[OF assms(1) frame_sessions[OF assms(1)] assms(2)] .
  have closed: "\<And>s2 t. R s s2 \<Longrightarrow> R s (s2\<lparr>trace := t\<rparr>)"
    using frame_step[OF assms(1) _ frame_trace[OF assms(1)]] by blast
  show "R s (snd (transaction body s))"
  proof (cases r)
    case (Inr v)
    then show ?thesis
      using b closed[OF r0] by (simp add: transaction_def)
  next
    case (Inl e)
    have "R s (s1\<lparr>sessionStore := sessionStore s, senderKeyMemoryStore := senderKeyMemoryStore s\<rparr>)"
      using frame_step[OF assms(1) r0 restored] .
    from closed[OF this] show ?thesis
      using b Inl by (simp add: transaction_def)
  qed
  show "\<exists>evs. trace (snd (transaction body s)) = trace s @ evs \<and> list_all Ev evs"
  proof (cases r)
    case (Inr v)
    have "trace s1 @ [TransactionCommit] = trace s @ (TransactionBegin # evs @ [TransactionCommit])"
      using t1 by simp
    moreover have "list_all Ev (TransactionBegin # evs @ [TransactionCommit])"
      using e1 assms(3,4) by simp
    ultimately show ?thesis
      using b Inr by (auto simp: transaction_def)
  next
    case (Inl e)
    have "trace s1 @ [TransactionRollback] =
        trace s @ (TransactionBegin # evs @ [TransactionRollback])"
      using t1 by simp
    moreover have "list_all Ev (TransactionBegin # evs @ [TransactionRollback])"
      using e1 assms(3,5) by simp
    ultimately show ?thesis
      using b Inl by (auto simp: transaction_def)
  qed
qed

text \<open>The body of the transaction up to the stanza: the stamping and one branch.\<close>

lemma within_dispatch_preamble:
  fixes R :: "'x RelayState_scheme \<Rightarrow> 'x RelayState_scheme \<Rightarrow> bool"
  assumes "relayFrame R" and "\<And>s v. R s (s\<lparr>senderKeyMemoryStore := v\<rparr>)"
  shows "within R
     (if isGroup ctx \<or> isStatus ctx then dispatchEvent senderKeyJids else isQuiet)
     (andThen (stampExtraAttrs env (ctxMessage ctx)) (\<lambda>_.
        if isGroup ctx \<or> isStatus ctx
        then groupDispatch env ctx devices senderKeyJids
        else directDispatch env ctx devices))"
proof -
  note f = relayFrame_frame[OF assms(1)]
  show ?thesis
  proof (cases "isGroup ctx \<or> isStatus ctx")
    case True
    then show ?thesis
      using within_andThen[OF frame_trans[OF f] within_stampExtraAttrs[OF assms(1)]
          within_groupDispatch[OF assms]]
      by simp
  next
    case False
    then show ?thesis
      using within_andThen[OF frame_trans[OF f] within_stampExtraAttrs[OF assms(1)]
          within_directDispatch[OF assms(1)]]
      by simp
  qed
qed

lemma sendToParticipants_unfold:
  "devices \<noteq> [] \<Longrightarrow>
   sendToParticipants env ctx devices senderKeyJids =
     andThen
       (transaction
          (andThen
             (andThen (stampExtraAttrs env (ctxMessage ctx)) (\<lambda>_.
                if isGroup ctx \<or> isStatus ctx
                then groupDispatch env ctx devices senderKeyJids
                else directDispatch env ctx devices))
             (\<lambda>(binaryNodeContent, participantNodes) s.
                doSendNode env
                  (buildStanza env ctx binaryNodeContent participantNodes
                     (shouldIncludeDeviceIdentity s))
                  s)))
       (\<lambda>_. succeed (msgIdOrNew env ctx))"
  by (simp add: sendToParticipants_def andThen_assoc)

text \<open>
  A dispatch with no devices does nothing. A dispatch with devices that succeeds opens a
  transaction, does quiet things, sends one stanza and commits.
\<close>

lemma sendToParticipants_empty:
  "sendToParticipants env ctx [] senderKeyJids s = (Inr (msgIdOrNew env ctx), s)"
  by (simp add: sendToParticipants_def succeed_def)



text \<open>
  A whole dispatch, whatever its outcome: in the group or status branch, encryptions
  are asked for the sender-key jids only.
\<close>

lemma within_sendToParticipants:
  fixes R :: "'x RelayState_scheme \<Rightarrow> 'x RelayState_scheme \<Rightarrow> bool"
  assumes "relayFrame R" and "\<And>s v. R s (s\<lparr>senderKeyMemoryStore := v\<rparr>)"
  shows "within R
     (if isGroup ctx \<or> isStatus ctx then encryptsOnly senderKeyJids else (\<lambda>ev. True))
     (sendToParticipants env ctx devices senderKeyJids)"
proof (cases "devices = []")
  case True
  then show ?thesis
    using frame_same[OF relayFrame_frame[OF assms(1)]]
    by (auto simp: within_def sendToParticipants_empty)
next
  case False
  note f = relayFrame_frame[OF assms(1)]
  let ?Ev = "if isGroup ctx \<or> isStatus ctx then encryptsOnly senderKeyJids else (\<lambda>ev. True)"
  have pre: "within R ?Ev
     (andThen (stampExtraAttrs env (ctxMessage ctx)) (\<lambda>_.
        if isGroup ctx \<or> isStatus ctx
        then groupDispatch env ctx devices senderKeyJids
        else directDispatch env ctx devices))"
    using within_dispatch_preamble[OF assms]
    by (rule within_weaken) (auto dest: dispatchEvent_encryptsOnly split: if_splits)
  have send: "\<And>built :: BinaryNode list \<times> BinaryNode list. within R ?Ev
     (case built of (binaryNodeContent, participantNodes) \<Rightarrow> \<lambda>s.
        doSendNode env
          (buildStanza env ctx binaryNodeContent participantNodes
             (shouldIncludeDeviceIdentity s))
          s)"
  proof (rule within_pointwise)
    fix built :: "BinaryNode list \<times> BinaryNode list" and s :: "'x RelayState_scheme"
    obtain c p where built: "built = (c, p)"
      by (cases built) auto
    have "within R ?Ev
        (doSendNode env (buildStanza env ctx c p (shouldIncludeDeviceIdentity s)))"
      by (rule within_doSendNode[OF f]) simp
    then show "\<exists>m'. within R ?Ev m'
        \<and> (case built of (binaryNodeContent, participantNodes) \<Rightarrow> \<lambda>s.
              doSendNode env
                (buildStanza env ctx binaryNodeContent participantNodes
                   (shouldIncludeDeviceIdentity s))
                s) s = m' s"
      using built by auto
  qed
  have "within R ?Ev
     (andThen
       (transaction
          (andThen
             (andThen (stampExtraAttrs env (ctxMessage ctx)) (\<lambda>_.
                if isGroup ctx \<or> isStatus ctx
                then groupDispatch env ctx devices senderKeyJids
                else directDispatch env ctx devices))
             (\<lambda>(binaryNodeContent, participantNodes) s.
                doSendNode env
                  (buildStanza env ctx binaryNodeContent participantNodes
                     (shouldIncludeDeviceIdentity s))
                  s)))
       (\<lambda>_. succeed (msgIdOrNew env ctx)))"
    by (intro within_andThen within_transaction within_succeed frame_trans[OF f]
        frame_refl[OF f] f assms(2) pre send)
      simp_all
  then show ?thesis
    using False by (simp add: sendToParticipants_unfold)
qed

subsection \<open>The sender-key memory through a dispatch\<close>

lemma markedInStore_trace [simp]:
  "markedInStore g d (s\<lparr>trace := t\<rparr>) = markedInStore g d s"
  by (simp add: markedInStore_def)

lemma markedInStore_write:
  "markedInStore g d (s\<lparr>senderKeyMemoryStore := AList.update jid memory (senderKeyMemoryStore s)\<rparr>) =
     (if g = jid then markedIn memory d else markedInStore g d s)"
  by (simp add: markedInStore_def update_conv')

lemma frame_keepsStore:
  "frame (\<lambda>s s'. senderKeyMemoryStore s' = senderKeyMemoryStore s)"
  by (simp add: frame_def reflp_def transp_def)

lemma relayFrame_keepsStore:
  "relayFrame (\<lambda>s s'. senderKeyMemoryStore s' = senderKeyMemoryStore s)"
  by (simp add: relayFrame_def frame_keepsStore)

lemma triple_keepsStore:
  assumes "within (\<lambda>s s'. senderKeyMemoryStore s' = senderKeyMemoryStore s) Ev m"
  shows "triple (markedInStore g d) m (\<lambda>r. markedInStore g d)"
  using assms by (rule triple_of_within) (simp add: markedInStore_def)

lemma triple_andThen_invariant:
  assumes "triple P m (\<lambda>r. P)" and "\<And>v. triple P (k v) (\<lambda>r. P)"
  shows "triple P (andThen m k) (\<lambda>r. P)"
  using assms(1) _ assms(2) by (rule triple_andThen) simp

lemma triple_state_invariant:
  "(\<And>s. P s \<Longrightarrow> P (f s)) \<Longrightarrow> triple P (\<lambda>s. (r s, f s)) (\<lambda>r. P)"
  by (simp add: triple_def)

lemma triple_pointwise:
  assumes "\<And>s. P s \<Longrightarrow> \<exists>m'. triple P m' Q \<and> m s = m' s"
  shows "triple P m Q"
proof (rule tripleI)
  fix s
  assume "P s"
  then obtain m' where "triple P m' Q" "m s = m' s"
    using assms by blast
  then show "Q (fst (m s)) (snd (m s))"
    using \<open>P s\<close> by (simp add: triple_def)
qed

text \<open>
  A jid marked in the stored memory of a group stays marked through the group branch of
  a dispatch: the memory written back at the end is the memory read at the start.
\<close>

lemma groupDispatch_keeps_marked:
  fixes ctx :: RelayContext
  assumes "\<not> (isStatus ctx \<and> g = ctxJid ctx)"
  shows "triple (markedInStore g d :: 'x RelayState_scheme \<Rightarrow> bool)
     (groupDispatch env ctx devices senderKeyJids) (\<lambda>r. markedInStore g d)"
proof -
  let ?P = "markedInStore g d :: 'x RelayState_scheme \<Rightarrow> bool"
  let ?keeps = "\<lambda>(s :: 'x RelayState_scheme) s'. senderKeyMemoryStore s' = senderKeyMemoryStore s"
  note f = frame_keepsStore and rf = relayFrame_keepsStore
  define readArm :: "('x RelayState_ext, (string \<times> bool) list) action" where
    "readArm = (if \<not> isStatus ctx then readSenderKeyMemory (ctxJid ctx) else succeed [])"
  have first: "triple ?P (both (fetchGroupData env ctx) readArm)
      (\<lambda>r s. ?P s \<and> (\<forall>groupData memory. r = Inr (groupData, memory) \<longrightarrow>
                          g = ctxJid ctx \<longrightarrow> markedIn memory d))"
  proof (rule tripleI)
    fix s :: "'x RelayState_scheme"
    assume marked: "?P s"
    obtain r1 where a: "fetchGroupData env ctx s = (r1, s)"
      using fetchGroupData_state[of env ctx s] by (cases "fetchGroupData env ctx s") auto
    obtain r2 s2 where b: "readArm s = (r2, s2)"
      by (cases "readArm s") auto
    have s2: "?P s2"
      using b marked
      by (auto simp: readArm_def readSenderKeyMemory_def andThen_def emit_def succeed_def
          split: if_splits)
    have r2: "\<And>memory. r2 = Inr memory \<Longrightarrow> g = ctxJid ctx \<Longrightarrow> markedIn memory d"
      using b marked assms
      by (auto simp: readArm_def readSenderKeyMemory_def andThen_def emit_def succeed_def
          markedInStore_def split: if_splits option.splits)
    have "both (fetchGroupData env ctx) readArm s =
        (case r1 of Inl e \<Rightarrow> Inl e
         | Inr x \<Rightarrow> (case r2 of Inl e \<Rightarrow> Inl e | Inr y \<Rightarrow> Inr (x, y)), s2)"
      using a b by (simp add: both_def)
    then show "?P (snd (both (fetchGroupData env ctx) readArm s))
        \<and> (\<forall>groupData memory. fst (both (fetchGroupData env ctx) readArm s) = Inr (groupData, memory)
              \<longrightarrow> g = ctxJid ctx \<longrightarrow> markedIn memory d)"
      using s2 r2 by (auto split: sum.splits)
  qed
  have sessions: "triple ?P (assertSessions env senderKeyJids False) (\<lambda>r. ?P)"
    by (rule triple_keepsStore[OF within_assertSessions[OF f]])
  have nodes: "\<And>msg. triple ?P
      (\<lambda>s. createParticipantNodes env senderKeyJids msg (extraAttrs s) s) (\<lambda>r. ?P)"
  proof (rule triple_pointwise)
    fix msg and s :: "'x RelayState_scheme"
    have "triple ?P (createParticipantNodes env senderKeyJids msg (extraAttrs s)) (\<lambda>r. ?P)"
      by (rule triple_keepsStore[OF within_createParticipantNodes[OF f]])
    then show "\<exists>m'. triple ?P m' (\<lambda>r. ?P)
        \<and> createParticipantNodes env senderKeyJids msg (extraAttrs s) s = m' s"
      by blast
  qed
  have flag: "\<And>b. triple ?P
      (\<lambda>s. (Inr (), s\<lparr>shouldIncludeDeviceIdentity := shouldIncludeDeviceIdentity s \<or> b\<rparr>))
      (\<lambda>r. ?P)"
    by (rule triple_state_invariant) (simp add: markedInStore_def)
  have emitted: "\<And>ev. triple ?P (emit ev) (\<lambda>r. ?P)"
    by (simp add: triple_def emit_def)
  have pureStep: "\<And>r. triple ?P (fromResult r) (\<lambda>r. ?P)"
    by (simp add: triple_def fromResult_def)
  have ok: "\<And>v. triple ?P (succeed v) (\<lambda>r. ?P)"
    by (simp add: triple_def succeed_def)
  have written: "\<And>memory. (g = ctxJid ctx \<longrightarrow> markedIn memory d) \<Longrightarrow>
      triple ?P (writeSenderKeyMemory (ctxJid ctx) memory) (\<lambda>r. ?P)"
    by (auto simp: triple_def writeSenderKeyMemory_def andThen_def emit_def markedInStore_def
        update_conv')
  have rest: "\<And>memory. (g = ctxJid ctx \<longrightarrow> markedIn memory d) \<Longrightarrow>
      triple ?P
        (andThen (fromResult (patchMessageBeforeSending env (ctxMessage ctx)
                (map (\<lambda>d. jidEncode (waBinary env) (user d)
                             (if isLid ctx then ''lid'' else ''s.whatsapp.net'') (device d))
                   devices)))
       (\<lambda>patched.
     andThen (emit (EncryptGroupMessage (destinationJid ctx) (encodeWAMessage env patched)))
       (\<lambda>_.
     andThen (fromResult (encryptGroupMessage (signalRepository env) (destinationJid ctx)
                (encodeWAMessage env patched) (meId ctx)))
       (\<lambda>(ciphertext, senderKeyDistributionMessage).
     andThen
       (if length senderKeyJids \<noteq> 0 then
          andThen (assertSessions env senderKeyJids False) (\<lambda>_.
          andThen (\<lambda>s. createParticipantNodes env senderKeyJids
                          (senderKeyMsg ctx senderKeyDistributionMessage) (extraAttrs s) s)
            (\<lambda>(nodes, includeIdentity).
          andThen (\<lambda>s. (Inr (),
                     s\<lparr>shouldIncludeDeviceIdentity :=
                          shouldIncludeDeviceIdentity s \<or> includeIdentity\<rparr>))
            (\<lambda>_. succeed nodes)))
        else succeed [])
       (\<lambda>participantNodes.
     andThen (writeSenderKeyMemory (ctxJid ctx) memory)
       (\<lambda>_. succeed
          ([BinaryNode ''enc'' [(''v'', Some ''2''), (''type'', Some ''skmsg'')]
              (BytesContent ciphertext)],
           participantNodes)))))))
        (\<lambda>r. ?P)"
    by (intro triple_andThen_invariant triple_if triple_case_prod
        sessions nodes flag emitted pureStep ok written)
  show ?thesis
    unfolding groupDispatch_def readArm_def[symmetric]
  proof (rule triple_andThen[OF first])
    fix e and s :: "'x RelayState_scheme"
    assume "?P s \<and> (\<forall>groupData memory. Inl e = Inr (groupData, memory) \<longrightarrow>
        g = ctxJid ctx \<longrightarrow> markedIn memory d)"
    then show "?P s" by simp
  next
    fix v :: "unit \<times> (string \<times> bool) list"
    obtain groupData memory where v: "v = (groupData, memory)"
      by (cases v) auto
    show "triple
        (\<lambda>s. ?P s \<and> (\<forall>groupData memory. Inr v = Inr (groupData, memory) \<longrightarrow>
                  g = ctxJid ctx \<longrightarrow> markedIn memory d))
        (case v of (groupData, memory) \<Rightarrow>
     andThen (fromResult (patchMessageBeforeSending env (ctxMessage ctx)
                (map (\<lambda>d. jidEncode (waBinary env) (user d)
                             (if isLid ctx then ''lid'' else ''s.whatsapp.net'') (device d))
                   devices)))
       (\<lambda>patched.
     andThen (emit (EncryptGroupMessage (destinationJid ctx) (encodeWAMessage env patched)))
       (\<lambda>_.
     andThen (fromResult (encryptGroupMessage (signalRepository env) (destinationJid ctx)
                (encodeWAMessage env patched) (meId ctx)))
       (\<lambda>(ciphertext, senderKeyDistributionMessage).
     andThen
       (if length senderKeyJids \<noteq> 0 then
          andThen (assertSessions env senderKeyJids False) (\<lambda>_.
          andThen (\<lambda>s. createParticipantNodes env senderKeyJids
                          (senderKeyMsg ctx senderKeyDistributionMessage) (extraAttrs s) s)
            (\<lambda>(nodes, includeIdentity).
          andThen (\<lambda>s. (Inr (),
                     s\<lparr>shouldIncludeDeviceIdentity :=
                          shouldIncludeDeviceIdentity s \<or> includeIdentity\<rparr>))
            (\<lambda>_. succeed nodes)))
        else succeed [])
       (\<lambda>participantNodes.
     andThen (writeSenderKeyMemory (ctxJid ctx) memory)
       (\<lambda>_. succeed
          ([BinaryNode ''enc'' [(''v'', Some ''2''), (''type'', Some ''skmsg'')]
              (BytesContent ciphertext)],
           participantNodes)))))))
        (\<lambda>r. ?P)"
    proof (cases "g = ctxJid ctx \<longrightarrow> markedIn memory d")
      case True
      show ?thesis
        unfolding v
        using rest[OF True] by (simp add: triple_def)
    next
      case False
      then show ?thesis
        unfolding v by (simp add: triple_def)
    qed
  qed
qed

lemma sendToParticipants_keeps_marked:
  fixes ctx :: RelayContext
  assumes "\<not> (isStatus ctx \<and> g = ctxJid ctx)"
  shows "triple (markedInStore g d :: 'x RelayState_scheme \<Rightarrow> bool)
     (sendToParticipants env ctx devices senderKeyJids) (\<lambda>r. markedInStore g d)"
proof (cases "devices = []")
  case True
  then show ?thesis
    by (simp add: sendToParticipants_def triple_succeed)
next
  case False
  let ?P = "markedInStore g d :: 'x RelayState_scheme \<Rightarrow> bool"
  have stamp: "triple ?P (stampExtraAttrs env (ctxMessage ctx)) (\<lambda>r. ?P)"
    by (rule triple_keepsStore, rule within_stampExtraAttrs, rule relayFrame_keepsStore)
  have direct: "triple ?P (directDispatch env ctx devices) (\<lambda>r. ?P)"
    by (rule triple_keepsStore, rule within_directDispatch, rule relayFrame_keepsStore)
  have send: "\<And>node. triple ?P (doSendNode env node) (\<lambda>r. ?P)"
    by (rule triple_keepsStore, rule within_doSendNode, rule frame_keepsStore) simp
  have sendStep: "\<And>built :: BinaryNode list \<times> BinaryNode list.
      triple ?P (case built of (binaryNodeContent, participantNodes) \<Rightarrow>
          \<lambda>s. doSendNode env
                 (buildStanza env ctx binaryNodeContent participantNodes
                    (shouldIncludeDeviceIdentity s)) s) (\<lambda>r. ?P)"
  proof -
    fix built :: "BinaryNode list \<times> BinaryNode list"
    obtain c p where built: "built = (c, p)" by (cases built) auto
    show "triple ?P (case built of (binaryNodeContent, participantNodes) \<Rightarrow>
          \<lambda>s. doSendNode env
                 (buildStanza env ctx binaryNodeContent participantNodes
                    (shouldIncludeDeviceIdentity s)) s) (\<lambda>r. ?P)"
      unfolding built prod.case
      by (rule triple_pointwise) (use send in blast)
  qed
  have body: "triple ?P
      (andThen
         (andThen (stampExtraAttrs env (ctxMessage ctx)) (\<lambda>_.
            if isGroup ctx \<or> isStatus ctx
            then groupDispatch env ctx devices senderKeyJids
            else directDispatch env ctx devices))
         (\<lambda>(binaryNodeContent, participantNodes) s.
            doSendNode env
              (buildStanza env ctx binaryNodeContent participantNodes
                 (shouldIncludeDeviceIdentity s))
              s)) (\<lambda>r. ?P)"
    by (intro triple_andThen_invariant triple_if stamp direct sendStep
        groupDispatch_keeps_marked[OF assms])
  have tx: "triple ?P
      (transaction
        (andThen
         (andThen (stampExtraAttrs env (ctxMessage ctx)) (\<lambda>_.
            if isGroup ctx \<or> isStatus ctx
            then groupDispatch env ctx devices senderKeyJids
            else directDispatch env ctx devices))
         (\<lambda>(binaryNodeContent, participantNodes) s.
            doSendNode env
              (buildStanza env ctx binaryNodeContent participantNodes
                 (shouldIncludeDeviceIdentity s))
              s))) (\<lambda>r. ?P)"
    by (rule triple_transaction_invariant[OF body]) (simp_all add: markedInStore_def)
  show ?thesis
    unfolding sendToParticipants_unfold[OF False]
    by (intro triple_andThen_invariant tx triple_succeed)
qed

lemma sendToParticipants_keeps_map:
  "within (\<lambda>s s' :: 'x RelayState_scheme. senderKeyMap s' = senderKeyMap s)
     (if isGroup ctx \<or> isStatus ctx then encryptsOnly senderKeyJids else (\<lambda>ev. True))
     (sendToParticipants env ctx devices senderKeyJids)"
  by (rule within_sendToParticipants)
    (simp_all add: relayFrame_def frame_def reflp_def transp_def)

lemma markNewDevices_marks:
  "markNewDevices env lid ds (jids0, memory0) = (jids, memory) \<Longrightarrow>
     (\<forall>j. markedIn memory0 j \<longrightarrow> markedIn memory j)
     \<and> (\<forall>j \<in> set jids. j \<in> set jids0 \<or> markedIn memory j)
     \<and> (\<forall>j \<in> set jids. markedIn memory0 j \<longrightarrow> j \<in> set jids0)"
proof (induction ds arbitrary: jids0 memory0)
  case Nil
  then show ?case by simp
next
  case (Cons d ds)
  let ?j = "jidEncode (waBinary env) (user d)
              (if lid then ''lid'' else ''s.whatsapp.net'') (device d)"
  show ?case
  proof (cases "map_of memory0 ?j \<noteq> Some True")
    case True
    then have run: "markNewDevices env lid ds (jids0 @ [?j], AList.update ?j True memory0) =
        (jids, memory)"
      using Cons.prems by (simp add: Let_def)
    have keep: "\<And>j. markedIn memory0 j \<Longrightarrow> markedIn (AList.update ?j True memory0) j"
      by (simp add: markedIn_def update_conv')
    have new: "markedIn (AList.update ?j True memory0) ?j"
      by (simp add: markedIn_def update_conv')
    have other: "\<And>j. markedIn (AList.update ?j True memory0) j \<Longrightarrow> j \<noteq> ?j \<Longrightarrow> markedIn memory0 j"
      by (simp add: markedIn_def update_conv')
    have notYet: "\<not> markedIn memory0 ?j"
      using True by (simp add: markedIn_def)
    have a: "\<forall>j. markedIn memory0 j \<longrightarrow> markedIn memory j"
      using Cons.IH[OF run] keep by blast
    have b: "\<forall>j \<in> set jids. j \<in> set jids0 \<or> markedIn memory j"
    proof
      fix j assume "j \<in> set jids"
      then have "j \<in> set (jids0 @ [?j]) \<or> markedIn memory j"
        using Cons.IH[OF run] by blast
      moreover have "markedIn memory ?j"
        using Cons.IH[OF run] new by blast
      ultimately show "j \<in> set jids0 \<or> markedIn memory j"
        by auto
    qed
    have c: "\<forall>j \<in> set jids. markedIn memory0 j \<longrightarrow> j \<in> set jids0"
    proof (intro ballI impI)
      fix j assume j: "j \<in> set jids" and m: "markedIn memory0 j"
      then have "j \<in> set (jids0 @ [?j])"
        using Cons.IH[OF run] keep by blast
      moreover have "j \<noteq> ?j"
        using m notYet by auto
      ultimately show "j \<in> set jids0"
        by auto
    qed
    from a b c show ?thesis by blast
  next
    case False
    then have run: "markNewDevices env lid ds (jids0, memory0) = (jids, memory)"
      using Cons.prems by (simp add: Let_def)
    from Cons.IH[OF run] show ?thesis .
  qed
qed

lemma grown_start: "grown Ev (trace s) s"
  by (simp add: grown_def)

lemma grown_weaken: "grown Ev t s \<Longrightarrow> (\<And>ev. Ev ev \<Longrightarrow> Ev' ev) \<Longrightarrow> grown Ev' t s"
  by (auto simp: grown_def list_all_iff)

lemma triple_grown:
  fixes m :: "('x, 'a) action"
  assumes "within R Ev m"
  shows "triple (grown Ev t) m (\<lambda>r. grown Ev t)"
proof (rule tripleI)
  fix s :: "'x SocketState_scheme"
  assume "grown Ev t s"
  then obtain evs where evs: "trace s = t @ evs" "list_all Ev evs"
    by (auto simp: grown_def)
  obtain r s' where run: "m s = (r, s')"
    by (cases "m s") auto
  from withinD(2)[OF assms run] obtain more where
    "trace s' = trace s @ more" "list_all Ev more" by blast
  then have "trace s' = t @ (evs @ more) \<and> list_all Ev (evs @ more)"
    using evs by simp
  then show "grown Ev t (snd (m s))"
    unfolding grown_def run by (simp only: snd_conv) blast
qed

lemma triple_conj:
  assumes "triple P m (\<lambda>r. P')" and "triple Q m (\<lambda>r. Q')"
  shows "triple (\<lambda>s. P s \<and> Q s) m (\<lambda>r s. P' s \<and> Q' s)"
  using assms by (auto simp: triple_def)

lemma triple_disj:
  assumes "triple P m (\<lambda>r. P')" and "triple Q m (\<lambda>r. Q')"
  shows "triple (\<lambda>s. P s \<or> Q s) m (\<lambda>r s. P' s \<or> Q' s)"
  using assms by (auto simp: triple_def)

lemma grown_encryptionsFor:
  "grown (encryptsElsewhere d) t s \<Longrightarrow> encryptionsFor d (trace s) = encryptionsFor d t"
proof -
  have step: "\<And>evs. list_all (encryptsElsewhere d) evs \<Longrightarrow>
      filter (\<lambda>j. j = d) (encryptedJids evs) = []"
  proof -
    fix evs
    show "list_all (encryptsElsewhere d) evs \<Longrightarrow> filter (\<lambda>j. j = d) (encryptedJids evs) = []"
      by (induction evs rule: encryptedJids.induct) auto
  qed
  have app: "\<And>xs ys. encryptedJids (xs @ ys) = encryptedJids xs @ encryptedJids ys"
  proof -
    fix xs ys
    show "encryptedJids (xs @ ys) = encryptedJids xs @ encryptedJids ys"
      by (induction xs rule: encryptedJids.induct) auto
  qed
  assume "grown (encryptsElsewhere d) t s"
  then show ?thesis
    by (auto simp: grown_def encryptionsFor_def app step)
qed
subsection \<open>The participant override\<close>

lemma encryptedJids_append:
  "encryptedJids (xs @ ys) = encryptedJids xs @ encryptedJids ys"
  by (induction xs rule: encryptedJids.induct) auto

lemma encryptsOnly_none:
  "list_all (encryptsOnly []) evs \<Longrightarrow> encryptedJids evs = []"
  by (induction evs rule: encryptedJids.induct) auto

lemma trace_enterRelay [simp]: "trace (enterRelay s) = trace s"
  by (simp add: enterRelay_def)

lemma trace_leaveRelay [simp]: "trace (leaveRelay s) = trace s"
  by (simp add: leaveRelay_def)

lemma store_enterRelay [simp]: "senderKeyMemoryStore (enterRelay s) = senderKeyMemoryStore s"
  by (simp add: enterRelay_def)

lemma store_leaveRelay [simp]: "senderKeyMemoryStore (leaveRelay s) = senderKeyMemoryStore s"
  by (simp add: leaveRelay_def)

lemma groupDispatch_no_targets:
  "groupDispatch env ctx devices [] s = (Inr (binaryNodeContent, participantNodes), s') \<Longrightarrow>
     participantNodes = []"
  by (auto simp: groupDispatch_def andThen_def succeed_def split: prod.splits sum.splits)

lemma relayMessageBody_override:
  assumes "credsMe env = Some (myId, myLid)"
    and "jidDecode (waBinary env) jid = Some decoded"
    and "participant options = Some participantJid"
    and "jidDecode (waBinary env) participantJid = Some target"
  shows "relayMessageBody env jid message options =
           sendToParticipants env
             (if server decoded \<noteq> ''g.us'' \<and> jid \<noteq> ''status@broadcast''
              then (relayContext env jid message options myId decoded)
                     \<lparr>ctxAdditionalAttributes :=
                        Some (setAttr ''device_fanout'' (Some ''false'')
                          (case additionalAttributes options of Some as \<Rightarrow> as | None \<Rightarrow> []))\<rparr>
              else relayContext env jid message options myId decoded)
             [\<lparr> user = user target, device = device target \<rparr>] []"
  using assms by (simp add: relayMessageBody_def Let_def)

text \<open>
  C10. With a participant override, when the account's id is there and the jid and the
  participant's jid decode, \<open>relayMessage\<close> is one dispatch to the one device of the
  override with an empty list of sender-key jids, whatever the destination and the
  stored sender-key memory. In a group or status send that dispatch builds no
  participant nodes, and the call asks for no encryption for a device.
\<close>

theorem relayMessage_participant_override:
  assumes "credsMe env = Some (myId, myLid)"
    and "jidDecode (waBinary env) jid = Some decoded"
    and "participant options = Some participantJid"
    and "jidDecode (waBinary env) participantJid = Some target"
  shows "relayMessageBody env jid message options =
           sendToParticipants env
             (if server decoded \<noteq> ''g.us'' \<and> jid \<noteq> ''status@broadcast''
              then (relayContext env jid message options myId decoded)
                     \<lparr>ctxAdditionalAttributes :=
                        Some (setAttr ''device_fanout'' (Some ''false'')
                          (case additionalAttributes options of Some as \<Rightarrow> as | None \<Rightarrow> []))\<rparr>
              else relayContext env jid message options myId decoded)
             [\<lparr> user = user target, device = device target \<rparr>] []
     \<and> (server decoded = ''g.us'' \<or> jid = ''status@broadcast'' \<longrightarrow>
          encryptedJids (trace (snd (relayMessage env jid message options s))) =
            encryptedJids (trace s))
     \<and> (groupDispatch env ctx devices [] t = (Inr (binaryNodeContent, participantNodes), t') \<longrightarrow>
          participantNodes = [])"
proof (intro conjI impI)
  let ?ctx = "if server decoded \<noteq> ''g.us'' \<and> jid \<noteq> ''status@broadcast''
              then (relayContext env jid message options myId decoded)
                     \<lparr>ctxAdditionalAttributes :=
                        Some (setAttr ''device_fanout'' (Some ''false'')
                          (case additionalAttributes options of Some as \<Rightarrow> as | None \<Rightarrow> []))\<rparr>
              else relayContext env jid message options myId decoded"
  show "relayMessageBody env jid message options =
      sendToParticipants env ?ctx [\<lparr> user = user target, device = device target \<rparr>] []"
    by (rule relayMessageBody_override[OF assms])
  {
    assume dest: "server decoded = ''g.us'' \<or> jid = ''status@broadcast''"
    then have grp: "isGroup ?ctx \<or> isStatus ?ctx"
      by (auto simp: relayContext_def)
    have body: "(relayMessageBody env jid message options :: (unit RelayState_ext, string) action) =
        sendToParticipants env ?ctx [\<lparr> user = user target, device = device target \<rparr>] []"
      by (rule relayMessageBody_override[OF assms])
    obtain r s' where run:
      "sendToParticipants env ?ctx [\<lparr> user = user target, device = device target \<rparr>] []
         (enterRelay s) = (r, s')"
      by (cases "sendToParticipants env ?ctx [\<lparr> user = user target, device = device target \<rparr>] []
         (enterRelay s)") auto
    have "within (\<lambda>s s' :: RelayState. True)
        (if isGroup ?ctx \<or> isStatus ?ctx then encryptsOnly [] else (\<lambda>ev. True))
        (sendToParticipants env ?ctx [\<lparr> user = user target, device = device target \<rparr>] [])"
      by (rule within_sendToParticipants)
        (simp_all add: relayFrame_def frame_def reflp_def transp_def)
    then have w: "within (\<lambda>s s' :: RelayState. True) (encryptsOnly [])
        (sendToParticipants env ?ctx [\<lparr> user = user target, device = device target \<rparr>] [])"
      by (simp only: grp if_True)
    from withinD(2)[OF w run] obtain evs where
      evs: "trace s' = trace s @ evs" "list_all (encryptsOnly []) evs"
      by auto
    show "encryptedJids (trace (snd (relayMessage env jid message options s))) =
        encryptedJids (trace s)"
      unfolding relayMessage_def body run
      using evs by (simp add: encryptedJids_append encryptsOnly_none)
  }
  {
    assume "groupDispatch env ctx devices [] t = (Inr (binaryNodeContent, participantNodes), t')"
    then show "participantNodes = []"
      by (rule groupDispatch_no_targets)
  }
qed
text \<open>
  A relay to the group \<open>g1\<close> with a participant override for alice, on a new socket:
  no encryption for a device is asked for, and the group dispatch for alice's device
  builds no participant node.
\<close>

theorem relayMessage_participant_override_witness:
  "credsMe exampleEnv = Some (''me@s.whatsapp.net'', None)
   \<and> jidDecode (waBinary exampleEnv) ''g1@g.us'' =
       Some \<lparr> user = ''g1'', device = None, server = ''g.us'' \<rparr>
   \<and> participant overrideOptions = Some ''alice@s.whatsapp.net''
   \<and> jidDecode (waBinary exampleEnv) ''alice@s.whatsapp.net'' =
       Some \<lparr> user = ''alice'', device = None, server = ''s.whatsapp.net'' \<rparr>
   \<and> encryptedJids (trace (snd (relayMessage exampleEnv ''g1@g.us'' exampleMessage
          overrideOptions initialState))) = []
   \<and> fst (groupDispatch exampleEnv
            (relayContext exampleEnv ''g1@g.us'' exampleMessage overrideOptions
               ''me@s.whatsapp.net'' \<lparr> user = ''g1'', device = None, server = ''g.us'' \<rparr>)
            [\<lparr> user = ''alice'', device = None \<rparr>] [] (enterRelay initialState)) =
       Inr ([BinaryNode ''enc'' [(''v'', Some ''2''), (''type'', Some ''skmsg'')]
               (BytesContent [1])], [])"
proof -
  let ?decoded = "\<lparr> user = ''g1'', device = None, server = ''g.us'' \<rparr>"
  let ?target = "\<lparr> user = ''alice'', device = None, server = ''s.whatsapp.net'' \<rparr>"
  let ?ctx = "relayContext exampleEnv ''g1@g.us'' exampleMessage overrideOptions
               ''me@s.whatsapp.net'' ?decoded"
  let ?run = "groupDispatch exampleEnv ?ctx [\<lparr> user = ''alice'', device = None \<rparr>] []
                (enterRelay initialState)"
  let ?enc = "BinaryNode ''enc'' [(''v'', Some ''2''), (''type'', Some ''skmsg'')]
               (BytesContent [1])"
  have h1: "credsMe exampleEnv = Some (''me@s.whatsapp.net'', None)"
    by (simp add: exampleEnv_def)
  have h2: "jidDecode (waBinary exampleEnv) ''g1@g.us'' = Some ?decoded"
    by (simp add: exampleEnv_def exampleWABinary_def)
  have h3: "participant overrideOptions = Some ''alice@s.whatsapp.net''"
    by (simp add: overrideOptions_def)
  have h4: "jidDecode (waBinary exampleEnv) ''alice@s.whatsapp.net'' = Some ?target"
    by (simp add: exampleEnv_def exampleWABinary_def)
  have g: "fst ?run = Inr ([?enc], [])"
    by (simp add: groupDispatch_def fetchGroupData_def readSenderKeyMemory_def
        writeSenderKeyMemory_def relayContext_def enterRelay_def andThen_def succeed_def
        fromResult_def emit_def both_def Let_def exampleEnv_def exampleWABinary_def
        exampleRepository_def exampleMessage_def overrideOptions_def noOptions_def
        initialState_def)
  then have run: "?run = (Inr ([?enc], []), snd ?run)"
    by (metis prod.collapse)
  have none: "snd (projr (fst ?run)) = []"
    using relayMessage_participant_override[OF h1 h2 h3 h4, THEN conjunct2, THEN conjunct2,
        rule_format, OF run]
    by (simp add: g)
  have "encryptedJids (trace (snd (relayMessage exampleEnv ''g1@g.us'' exampleMessage
          overrideOptions initialState))) = encryptedJids (trace initialState)"
    using relayMessage_participant_override[OF h1 h2 h3 h4, THEN conjunct2, THEN conjunct1]
    by simp
  then have "encryptedJids (trace (snd (relayMessage exampleEnv ''g1@g.us'' exampleMessage
          overrideOptions initialState))) = []"
    by (simp add: initialState_def)
  then show ?thesis
    using h1 h2 h3 h4 g by blast
qed
subsection \<open>The sender-key memory across relays\<close>

lemma triple_trivial: "triple P m (\<lambda>r s. True)"
  by (simp add: triple_def)

lemma triple_within_conj:
  fixes m :: "('x, 'a) action"
  assumes "within R Ev m" and "\<And>ev. Ev ev \<Longrightarrow> Ev' ev"
    and "\<And>s s'. R s s' \<Longrightarrow> P s \<Longrightarrow> P s'"
  shows "triple (\<lambda>s. P s \<and> grown Ev' t s) m (\<lambda>r s. P s \<and> grown Ev' t s)"
proof -
  have w: "within R Ev' m"
    by (rule within_weaken[OF assms(1)]) (use assms(2) in auto)
  show ?thesis
    by (rule triple_conj[OF triple_of_within[OF w assms(3)] triple_grown[OF w]])
qed

lemma triple_within_disj:
  fixes m :: "('x, 'a) action"
  assumes "within R Ev m" and "\<And>ev. Ev ev \<Longrightarrow> Ev' ev"
    and "\<And>s s'. R s s' \<Longrightarrow> P s \<Longrightarrow> P s'"
  shows "triple (\<lambda>s. grown Ev' t s \<or> P s) m (\<lambda>r s. grown Ev' t s \<or> P s)"
proof -
  have w: "within R Ev' m"
    by (rule within_weaken[OF assms(1)]) (use assms(2) in auto)
  show ?thesis
    by (rule triple_disj[OF triple_grown[OF w] triple_of_within[OF w assms(3)]])
qed

lemma frame_keepsMemory:
  "frame (\<lambda>s s' :: 'x RelayState_scheme.
      senderKeyMemoryStore s' = senderKeyMemoryStore s \<and> senderKeyMap s' = senderKeyMap s)"
  by (simp add: frame_def reflp_def transp_def)

lemma isDeviceQuery_elsewhere: "isDeviceQuery ev \<Longrightarrow> encryptsElsewhere d ev"
  by (cases ev) auto

lemma encryptsOnly_elsewhere: "d \<notin> set jids \<Longrightarrow> encryptsOnly jids ev \<Longrightarrow> encryptsElsewhere d ev"
  by (cases ev) auto

lemma grown_emit:
  "grown Ev t s \<Longrightarrow> Ev ev \<Longrightarrow> grown Ev t (s\<lparr>trace := trace s @ [ev]\<rparr>)"
  by (auto simp: grown_def)

lemma grown_store [simp]:
  "grown Ev t (s\<lparr>senderKeyMemoryStore := v\<rparr>) = grown Ev t s"
  by (simp add: grown_def)

lemma grown_map [simp]:
  "grown Ev t (s\<lparr>senderKeyMap := v\<rparr>) = grown Ev t s"
  by (simp add: grown_def)

lemma markedInStore_map [simp]:
  "markedInStore g d (s\<lparr>senderKeyMap := v\<rparr>) = markedInStore g d s"
  by (simp add: markedInStore_def)

text \<open>What reading and writing the memory of a group give.\<close>

lemma readSenderKeyMemory_result:
  "readSenderKeyMemory g s =
     (Inr (case map_of (senderKeyMemoryStore s) g of Some m \<Rightarrow> m | None \<Rightarrow> []),
      s\<lparr>trace := trace s @ [KeysGet ''sender-key-memory'' [g]]\<rparr>)"
  by (simp add: readSenderKeyMemory_def andThen_def emit_def)

lemma writeSenderKeyMemory_result:
  "writeSenderKeyMemory g memory s =
     (Inr (),
      s\<lparr>trace := trace s @ [KeysSet ''sender-key-memory'' g],
        senderKeyMemoryStore := AList.update g memory (senderKeyMemoryStore s)\<rparr>)"
  by (simp add: writeSenderKeyMemory_def andThen_def emit_def)

lemma markedInStore_read:
  "markedIn (case map_of (senderKeyMemoryStore s) g of Some m \<Rightarrow> m | None \<Rightarrow> []) d =
     markedInStore g d s"
  by (simp add: markedInStore_def markedIn_def split: option.splits)

lemma markedInStore_written:
  "markedInStore g d
     (s\<lparr>trace := t, senderKeyMemoryStore := AList.update g memory (senderKeyMemoryStore s)\<rparr>) =
   markedIn memory d"
  by (simp add: markedInStore_def update_conv')

text \<open>
  A dispatch of a group send that is given a sender-key list without \<open>d\<close>: the mark of
  \<open>d\<close> stays, and no encryption for \<open>d\<close> is asked for.
\<close>

lemma sendToParticipants_skips_marked:
  fixes ctx :: RelayContext
  assumes "isGroup ctx \<or> isStatus ctx" and "\<not> (isStatus ctx \<and> g = ctxJid ctx)"
    and "d \<notin> set senderKeyJids"
  shows "triple
     (\<lambda>s :: 'x RelayState_scheme. markedInStore g d s \<and> grown (encryptsElsewhere d) t s)
     (sendToParticipants env ctx devices senderKeyJids)
     (\<lambda>r s. markedInStore g d s \<and> grown (encryptsElsewhere d) t s)"
proof -
  have w: "within (\<lambda>s s' :: 'x RelayState_scheme. senderKeyMap s' = senderKeyMap s)
      (encryptsOnly senderKeyJids) (sendToParticipants env ctx devices senderKeyJids)"
    using sendToParticipants_keeps_map[of ctx senderKeyJids env devices] assms(1)
    by (simp only: if_True)
  have w': "within (\<lambda>s s' :: 'x RelayState_scheme. senderKeyMap s' = senderKeyMap s)
      (encryptsElsewhere d) (sendToParticipants env ctx devices senderKeyJids)"
    by (rule within_weaken[OF w]) (auto intro: encryptsOnly_elsewhere[OF assms(3)])
  show ?thesis
    by (rule triple_conj[OF sendToParticipants_keeps_marked[OF assms(2)] triple_grown[OF w']])
qed

lemma sendToParticipants_marks_first:
  fixes ctx :: RelayContext
  assumes "isGroup ctx \<or> isStatus ctx" and "\<not> (isStatus ctx \<and> g = ctxJid ctx)"
  shows "triple
     (\<lambda>s :: 'x RelayState_scheme.
        (grown (encryptsElsewhere d) t s \<or> markedInStore g d s)
        \<and> (d \<in> set senderKeyJids \<longrightarrow> markedInStore g d s))
     (sendToParticipants env ctx devices senderKeyJids)
     (\<lambda>r s. grown (encryptsElsewhere d) t s \<or> markedInStore g d s)"
proof (cases "d \<in> set senderKeyJids")
  case True
  show ?thesis
    by (rule triple_weaken[OF sendToParticipants_keeps_marked[OF assms(2)]])
      (use True in auto)
next
  case False
  have w: "within (\<lambda>s s' :: 'x RelayState_scheme. senderKeyMap s' = senderKeyMap s)
      (encryptsOnly senderKeyJids) (sendToParticipants env ctx devices senderKeyJids)"
    using sendToParticipants_keeps_map[of ctx senderKeyJids env devices] assms(1)
    by (simp only: if_True)
  have w': "within (\<lambda>s s' :: 'x RelayState_scheme. senderKeyMap s' = senderKeyMap s)
      (encryptsElsewhere d) (sendToParticipants env ctx devices senderKeyJids)"
    by (rule within_weaken[OF w]) (auto intro: encryptsOnly_elsewhere[OF False])
  have "triple
     (\<lambda>s :: 'x RelayState_scheme. grown (encryptsElsewhere d) t s \<or> markedInStore g d s)
     (sendToParticipants env ctx devices senderKeyJids)
     (\<lambda>r s. grown (encryptsElsewhere d) t s \<or> markedInStore g d s)"
    by (rule triple_disj[OF triple_grown[OF w'] sendToParticipants_keeps_marked[OF assms(2)]])
  then show ?thesis
    by (rule triple_weaken) auto
qed
text \<open>A send at once, to a group, from a memory in which \<open>d\<close> is marked.\<close>

lemma markStep_skips_marked:
  assumes "markedIn memory d"
  shows "triple
     (\<lambda>s :: 'x RelayState_scheme. markedInStore g d s \<and> grown (encryptsElsewhere d) t s)
     (case markNewDevices env lid devices ([], memory) of
        (senderKeyJids, marked) \<Rightarrow>
          if length senderKeyJids \<noteq> 0
          then andThen (writeSenderKeyMemory g marked) (\<lambda>_. succeed senderKeyJids)
          else succeed senderKeyJids)
     (\<lambda>r s. (\<forall>jids. r = Inr jids \<longrightarrow> d \<notin> set jids)
        \<and> markedInStore g d s \<and> grown (encryptsElsewhere d) t s)"
proof -
  obtain jids marked where m: "markNewDevices env lid devices ([], memory) = (jids, marked)"
    by (cases "markNewDevices env lid devices ([], memory)") auto
  have kept: "markedIn marked d" and fresh: "d \<notin> set jids"
    using markNewDevices_marks[OF m] assms by auto
  show ?thesis
    unfolding m prod.case
    by (rule tripleI)
      (auto simp: andThen_def succeed_def writeSenderKeyMemory_result markedInStore_written
        kept fresh intro: grown_emit)
qed

lemma relayAtOnce_skips_marked:
  fixes ctx :: RelayContext
  assumes "isGroup ctx" and "\<not> isStatus ctx"
  shows "triple
     (\<lambda>s :: 'x RelayState_scheme.
        markedInStore (ctxJid ctx) d s \<and> grown (encryptsElsewhere d) t s)
     (relayAtOnce env ctx useCache participantsList)
     (\<lambda>r s. markedInStore (ctxJid ctx) d s \<and> grown (encryptsElsewhere d) t s)"
proof -
  let ?g = "ctxJid ctx"
  let ?I = "\<lambda>s :: 'x RelayState_scheme.
        markedInStore ?g d s \<and> grown (encryptsElsewhere d) t s"
  have usync: "triple ?I (getUSyncDevices env participantsList useCache False) (\<lambda>r. ?I)"
    by (rule triple_within_conj[OF within_getUSyncDevices[OF frame_keepsStore]
          isDeviceQuery_elsewhere])
      (simp_all add: markedInStore_def)
  have read: "triple ?I (readSenderKeyMemory ?g)
      (\<lambda>r s. (\<forall>memory. r = Inr memory \<longrightarrow> markedIn memory d) \<and> ?I s)"
    by (rule tripleI)
      (auto simp: readSenderKeyMemory_result markedInStore_read intro: grown_emit)
  have pick: "\<And>devices. triple ?I
      (andThen (readSenderKeyMemory ?g) (\<lambda>memory.
         case markNewDevices env (isLid ctx) devices ([], memory) of
           (senderKeyJids, marked) \<Rightarrow>
             if length senderKeyJids \<noteq> 0
             then andThen (writeSenderKeyMemory ?g marked) (\<lambda>_. succeed senderKeyJids)
             else succeed senderKeyJids))
      (\<lambda>r s. (\<forall>jids. r = Inr jids \<longrightarrow> d \<notin> set jids) \<and> ?I s)"
  proof -
    fix devices
    show "triple ?I
      (andThen (readSenderKeyMemory ?g) (\<lambda>memory.
         case markNewDevices env (isLid ctx) devices ([], memory) of
           (senderKeyJids, marked) \<Rightarrow>
             if length senderKeyJids \<noteq> 0
             then andThen (writeSenderKeyMemory ?g marked) (\<lambda>_. succeed senderKeyJids)
             else succeed senderKeyJids))
      (\<lambda>r s. (\<forall>jids. r = Inr jids \<longrightarrow> d \<notin> set jids) \<and> ?I s)"
    proof (rule triple_andThen[OF read])
      fix e and s :: "'x RelayState_scheme"
      assume "(\<forall>memory. Inl e = Inr memory \<longrightarrow> markedIn memory d) \<and> ?I s"
      then show "(\<forall>jids. Inl e = Inr jids \<longrightarrow> d \<notin> set jids) \<and> ?I s"
        by simp
    next
      fix memory
      show "triple (\<lambda>s. (\<forall>m. Inr memory = Inr m \<longrightarrow> markedIn m d) \<and> ?I s)
        (case markNewDevices env (isLid ctx) devices ([], memory) of
           (senderKeyJids, marked) \<Rightarrow>
             if length senderKeyJids \<noteq> 0
             then andThen (writeSenderKeyMemory ?g marked) (\<lambda>_. succeed senderKeyJids)
             else succeed senderKeyJids)
        (\<lambda>r s. (\<forall>jids. r = Inr jids \<longrightarrow> d \<notin> set jids) \<and> ?I s)"
        by (rule triple_pure) (rule markStep_skips_marked, simp)
    qed
  qed
  have send: "\<And>devices jids. triple
      (\<lambda>s. (\<forall>js. Inr jids = Inr js \<longrightarrow> d \<notin> set js) \<and> ?I s)
      (sendToParticipants env ctx devices jids) (\<lambda>r. ?I)"
    by (rule triple_pure) (rule sendToParticipants_skips_marked, use assms in simp_all)
  show ?thesis
    unfolding relayAtOnce_def
    apply (rule triple_andThen[OF usync])
     apply assumption
    apply (simp only: assms(2) not_False_eq_True if_True)
    apply (rule triple_andThen[OF pick])
     apply simp
    apply (rule send)
    done
qed

text \<open>The same for a send in blocks.\<close>

lemma sendBlock_skips_marked:
  fixes ctx :: RelayContext
  assumes "isGroup ctx" and "\<not> isStatus ctx"
  shows "triple
     (\<lambda>s :: 'x RelayState_scheme.
        (markedInStore (ctxJid ctx) d s \<and> grown (encryptsElsewhere d) t s)
        \<and> markedIn (senderKeyMap s) d)
     (sendBlock env ctx useCache blockParticipants)
     (\<lambda>r s. (markedInStore (ctxJid ctx) d s \<and> grown (encryptsElsewhere d) t s)
        \<and> markedIn (senderKeyMap s) d)"
proof -
  let ?g = "ctxJid ctx"
  let ?I = "\<lambda>s :: 'x RelayState_scheme.
        (markedInStore ?g d s \<and> grown (encryptsElsewhere d) t s) \<and> markedIn (senderKeyMap s) d"
  have usync: "triple ?I (getUSyncDevices env blockParticipants useCache False) (\<lambda>r. ?I)"
  proof -
    have "triple
        (\<lambda>s :: 'x RelayState_scheme.
           (markedInStore ?g d s \<and> markedIn (senderKeyMap s) d)
           \<and> grown (encryptsElsewhere d) t s)
        (getUSyncDevices env blockParticipants useCache False)
        (\<lambda>r s. (markedInStore ?g d s \<and> markedIn (senderKeyMap s) d)
           \<and> grown (encryptsElsewhere d) t s)"
      by (rule triple_within_conj[OF within_getUSyncDevices[OF frame_keepsMemory]
            isDeviceQuery_elsewhere])
        (simp_all add: markedInStore_def)
    then show ?thesis
      by (rule triple_weaken) auto
  qed
  have mark: "\<And>devices. triple ?I
      (\<lambda>s. case markNewDevices env (isLid ctx) devices ([], senderKeyMap s) of
              (blockSenderKeyJids, marked) \<Rightarrow>
                (Inr blockSenderKeyJids, s\<lparr>senderKeyMap := marked\<rparr>))
      (\<lambda>r s. (\<forall>jids. r = Inr jids \<longrightarrow> d \<notin> set jids) \<and> ?I s)"
  proof (rule tripleI)
    fix devices and s :: "'x RelayState_scheme"
    assume inv: "?I s"
    obtain jids marked where
      m: "markNewDevices env (isLid ctx) devices ([], senderKeyMap s) = (jids, marked)"
      by (cases "markNewDevices env (isLid ctx) devices ([], senderKeyMap s)") auto
    have "markedIn marked d" and "d \<notin> set jids"
      using markNewDevices_marks[OF m] inv by auto
    then show "(\<forall>jids. fst (case markNewDevices env (isLid ctx) devices ([], senderKeyMap s) of
              (blockSenderKeyJids, marked) \<Rightarrow>
                (Inr blockSenderKeyJids, s\<lparr>senderKeyMap := marked\<rparr>)) = Inr jids \<longrightarrow>
            d \<notin> set jids)
        \<and> ?I (snd (case markNewDevices env (isLid ctx) devices ([], senderKeyMap s) of
              (blockSenderKeyJids, marked) \<Rightarrow>
                (Inr blockSenderKeyJids, s\<lparr>senderKeyMap := marked\<rparr>)))"
      using inv by (simp add: m)
  qed
  have send: "\<And>devices jids. triple
      (\<lambda>s. (\<forall>js. Inr jids = Inr js \<longrightarrow> d \<notin> set js) \<and> ?I s)
      (andThen (sendToParticipants env ctx devices jids) (\<lambda>_. succeed ())) (\<lambda>r. ?I)"
  proof (rule triple_pure)
    fix devices jids
    assume "\<forall>js. Inr jids = Inr js \<longrightarrow> d \<notin> set js"
    then have fresh: "d \<notin> set jids"
      by simp
    have w: "within (\<lambda>s s' :: 'x RelayState_scheme. senderKeyMap s' = senderKeyMap s)
        (if isGroup ctx \<or> isStatus ctx then encryptsOnly jids else (\<lambda>ev. True))
        (sendToParticipants env ctx devices jids)"
      by (rule sendToParticipants_keeps_map)
    have "triple ?I (sendToParticipants env ctx devices jids) (\<lambda>r. ?I)"
      by (rule triple_conj[OF sendToParticipants_skips_marked triple_of_within[OF w]])
        (use assms fresh in simp_all)
    then show "triple ?I (andThen (sendToParticipants env ctx devices jids) (\<lambda>_. succeed ()))
        (\<lambda>r. ?I)"
      by (rule triple_andThen_invariant) (rule triple_succeed)
  qed
  show ?thesis
    unfolding sendBlock_def
    apply (rule triple_andThen[OF usync])
     apply assumption
    apply (rule triple_andThen[OF mark])
     apply simp
    apply (rule send)
    done
qed

lemma relayInBlocks_skips_marked:
  fixes ctx :: RelayContext
  assumes "isGroup ctx" and "\<not> isStatus ctx"
  shows "triple
     (\<lambda>s :: 'x RelayState_scheme.
        markedInStore (ctxJid ctx) d s \<and> grown (encryptsElsewhere d) t s)
     (relayInBlocks env ctx useCache participantsList)
     (\<lambda>r s. markedInStore (ctxJid ctx) d s \<and> grown (encryptsElsewhere d) t s)"
proof -
  let ?g = "ctxJid ctx"
  let ?I = "\<lambda>s :: 'x RelayState_scheme.
        markedInStore ?g d s \<and> grown (encryptsElsewhere d) t s"
  let ?J = "\<lambda>s :: 'x RelayState_scheme. ?I s \<and> markedIn (senderKeyMap s) d"
  have read: "triple ?I (readSenderKeyMemory ?g)
      (\<lambda>r s. (\<forall>memory. r = Inr memory \<longrightarrow> markedIn memory d) \<and> ?I s)"
    by (rule tripleI)
      (auto simp: readSenderKeyMemory_result markedInStore_read intro: grown_emit)
  have setMap: "\<And>memory. triple (\<lambda>s. (\<forall>m. Inr memory = Inr m \<longrightarrow> markedIn m d) \<and> ?I s)
      (\<lambda>s. (Inr (), s\<lparr>senderKeyMap := memory\<rparr>)) (\<lambda>r. ?J)"
    by (rule tripleI) simp
  have blocks: "triple ?J
      (allOf (map (sendBlock env ctx useCache)
         (chunksOf (participantBlockSize env) participantsList))) (\<lambda>r. ?J)"
  proof (rule triple_allOf_invariant)
    fix m :: "('x RelayState_ext, unit) action"
    assume "m \<in> set (map (sendBlock env ctx useCache)
         (chunksOf (participantBlockSize env) participantsList))"
    then obtain chunk where m: "m = sendBlock env ctx useCache chunk"
      by auto
    show "triple ?J m (\<lambda>r. ?J)"
      unfolding m by (rule sendBlock_skips_marked[OF assms])
  qed
  have stored: "triple ?J (\<lambda>s. writeSenderKeyMemory ?g (senderKeyMap s) s) (\<lambda>r. ?I)"
    by (rule tripleI)
      (auto simp: writeSenderKeyMemory_result markedInStore_written intro: grown_emit)
  show ?thesis
    unfolding relayInBlocks_def
    apply (simp only: assms(2) not_False_eq_True if_True if_False)
    apply (rule triple_andThen[OF read])
     apply simp
    apply (rule triple_andThen[OF setMap])
     apply simp
    apply (rule triple_andThen[OF blocks])
     apply simp
    apply (rule triple_andThen[OF stored])
     apply simp
    apply (rule triple_succeed)
    apply simp
    done
qed
text \<open>
  A relay that asks for an encryption for \<open>d\<close> leaves \<open>d\<close> marked: either the trace
  has grown without an encryption for \<open>d\<close>, or \<open>d\<close> is marked.
\<close>

lemma markStep_marks:
  "triple
     (\<lambda>s :: 'x RelayState_scheme.
        (markedInStore g d s \<longleftrightarrow> markedIn memory d)
        \<and> (grown (encryptsElsewhere d) t s \<or> markedInStore g d s))
     (case markNewDevices env lid devices ([], memory) of
        (senderKeyJids, marked) \<Rightarrow>
          if length senderKeyJids \<noteq> 0
          then andThen (writeSenderKeyMemory g marked) (\<lambda>_. succeed senderKeyJids)
          else succeed senderKeyJids)
     (\<lambda>r s. (\<forall>jids. r = Inr jids \<longrightarrow> d \<in> set jids \<longrightarrow> markedInStore g d s)
        \<and> (grown (encryptsElsewhere d) t s \<or> markedInStore g d s))"
proof -
  obtain jids marked where m: "markNewDevices env lid devices ([], memory) = (jids, marked)"
    by (cases "markNewDevices env lid devices ([], memory)") auto
  have kept: "markedIn memory d \<Longrightarrow> markedIn marked d"
    and new: "d \<in> set jids \<Longrightarrow> markedIn marked d"
    using markNewDevices_marks[OF m] by auto
  show ?thesis
    unfolding m prod.case
    by (rule tripleI)
      (auto simp: andThen_def succeed_def writeSenderKeyMemory_result markedInStore_written
        kept new intro: grown_emit)
qed

lemma relayAtOnce_marks:
  fixes ctx :: RelayContext
  assumes "isGroup ctx" and "\<not> isStatus ctx"
  shows "triple
     (\<lambda>s :: 'x RelayState_scheme.
        grown (encryptsElsewhere d) t s \<or> markedInStore (ctxJid ctx) d s)
     (relayAtOnce env ctx useCache participantsList)
     (\<lambda>r s. grown (encryptsElsewhere d) t s \<or> markedInStore (ctxJid ctx) d s)"
proof -
  let ?g = "ctxJid ctx"
  let ?G = "\<lambda>s :: 'x RelayState_scheme.
        grown (encryptsElsewhere d) t s \<or> markedInStore ?g d s"
  have usync: "triple ?G (getUSyncDevices env participantsList useCache False) (\<lambda>r. ?G)"
    by (rule triple_within_disj[OF within_getUSyncDevices[OF frame_keepsStore]
          isDeviceQuery_elsewhere])
      (simp_all add: markedInStore_def)
  have read: "triple ?G (readSenderKeyMemory ?g)
      (\<lambda>r s. (\<forall>memory. r = Inr memory \<longrightarrow> (markedInStore ?g d s \<longleftrightarrow> markedIn memory d))
         \<and> ?G s)"
    by (rule tripleI)
      (auto simp: readSenderKeyMemory_result markedInStore_read intro: grown_emit)
  have pick: "\<And>devices. triple ?G
      (andThen (readSenderKeyMemory ?g) (\<lambda>memory.
         case markNewDevices env (isLid ctx) devices ([], memory) of
           (senderKeyJids, marked) \<Rightarrow>
             if length senderKeyJids \<noteq> 0
             then andThen (writeSenderKeyMemory ?g marked) (\<lambda>_. succeed senderKeyJids)
             else succeed senderKeyJids))
      (\<lambda>r s. (\<forall>jids. r = Inr jids \<longrightarrow> d \<in> set jids \<longrightarrow> markedInStore ?g d s) \<and> ?G s)"
  proof -
    fix devices
    show "triple ?G
      (andThen (readSenderKeyMemory ?g) (\<lambda>memory.
         case markNewDevices env (isLid ctx) devices ([], memory) of
           (senderKeyJids, marked) \<Rightarrow>
             if length senderKeyJids \<noteq> 0
             then andThen (writeSenderKeyMemory ?g marked) (\<lambda>_. succeed senderKeyJids)
             else succeed senderKeyJids))
      (\<lambda>r s. (\<forall>jids. r = Inr jids \<longrightarrow> d \<in> set jids \<longrightarrow> markedInStore ?g d s) \<and> ?G s)"
    proof (rule triple_andThen[OF read])
      fix e and s :: "'x RelayState_scheme"
      assume "(\<forall>memory. Inl e = Inr memory \<longrightarrow> (markedInStore ?g d s \<longleftrightarrow> markedIn memory d))
         \<and> ?G s"
      then show "(\<forall>jids. Inl e = Inr jids \<longrightarrow> d \<in> set jids \<longrightarrow> markedInStore ?g d s) \<and> ?G s"
        by simp
    next
      fix memory
      show "triple
        (\<lambda>s. (\<forall>m. Inr memory = Inr m \<longrightarrow> (markedInStore ?g d s \<longleftrightarrow> markedIn m d)) \<and> ?G s)
        (case markNewDevices env (isLid ctx) devices ([], memory) of
           (senderKeyJids, marked) \<Rightarrow>
             if length senderKeyJids \<noteq> 0
             then andThen (writeSenderKeyMemory ?g marked) (\<lambda>_. succeed senderKeyJids)
             else succeed senderKeyJids)
        (\<lambda>r s. (\<forall>jids. r = Inr jids \<longrightarrow> d \<in> set jids \<longrightarrow> markedInStore ?g d s) \<and> ?G s)"
        by (rule triple_weaken[OF markStep_marks]) auto
    qed
  qed
  have send: "\<And>devices jids. triple
      (\<lambda>s. (\<forall>js. Inr jids = Inr js \<longrightarrow> d \<in> set js \<longrightarrow> markedInStore ?g d s) \<and> ?G s)
      (sendToParticipants env ctx devices jids) (\<lambda>r. ?G)"
    by (rule triple_weaken[OF sendToParticipants_marks_first]) (use assms in auto)
  show ?thesis
    unfolding relayAtOnce_def
    apply (rule triple_andThen[OF usync])
     apply assumption
    apply (simp only: assms(2) not_False_eq_True if_True)
    apply (rule triple_andThen[OF pick])
     apply simp
    apply (rule send)
    done
qed

lemma sendBlock_marks:
  fixes ctx :: RelayContext
  assumes "isGroup ctx \<or> isStatus ctx"
  shows "triple
     (\<lambda>s :: 'x RelayState_scheme.
        grown (encryptsElsewhere d) t s \<or> markedIn (senderKeyMap s) d)
     (sendBlock env ctx useCache blockParticipants)
     (\<lambda>r s. grown (encryptsElsewhere d) t s \<or> markedIn (senderKeyMap s) d)"
proof -
  let ?G = "\<lambda>s :: 'x RelayState_scheme.
        grown (encryptsElsewhere d) t s \<or> markedIn (senderKeyMap s) d"
  have usync: "triple ?G (getUSyncDevices env blockParticipants useCache False) (\<lambda>r. ?G)"
    by (rule triple_within_disj[OF within_getUSyncDevices[OF frame_keepsMemory]
          isDeviceQuery_elsewhere])
      simp_all
  have mark: "\<And>devices. triple ?G
      (\<lambda>s. case markNewDevices env (isLid ctx) devices ([], senderKeyMap s) of
              (blockSenderKeyJids, marked) \<Rightarrow>
                (Inr blockSenderKeyJids, s\<lparr>senderKeyMap := marked\<rparr>))
      (\<lambda>r s. (\<forall>jids. r = Inr jids \<longrightarrow> d \<in> set jids \<longrightarrow> markedIn (senderKeyMap s) d) \<and> ?G s)"
  proof (rule tripleI)
    fix devices and s :: "'x RelayState_scheme"
    assume inv: "?G s"
    obtain jids marked where
      m: "markNewDevices env (isLid ctx) devices ([], senderKeyMap s) = (jids, marked)"
      by (cases "markNewDevices env (isLid ctx) devices ([], senderKeyMap s)") auto
    have "markedIn (senderKeyMap s) d \<Longrightarrow> markedIn marked d"
      and "d \<in> set jids \<Longrightarrow> markedIn marked d"
      using markNewDevices_marks[OF m] by auto
    then show "(\<forall>jids. fst (case markNewDevices env (isLid ctx) devices ([], senderKeyMap s) of
              (blockSenderKeyJids, marked) \<Rightarrow>
                (Inr blockSenderKeyJids, s\<lparr>senderKeyMap := marked\<rparr>)) = Inr jids \<longrightarrow>
            d \<in> set jids \<longrightarrow>
            markedIn (senderKeyMap
              (snd (case markNewDevices env (isLid ctx) devices ([], senderKeyMap s) of
                (blockSenderKeyJids, marked) \<Rightarrow>
                  (Inr blockSenderKeyJids, s\<lparr>senderKeyMap := marked\<rparr>)))) d)
        \<and> ?G (snd (case markNewDevices env (isLid ctx) devices ([], senderKeyMap s) of
              (blockSenderKeyJids, marked) \<Rightarrow>
                (Inr blockSenderKeyJids, s\<lparr>senderKeyMap := marked\<rparr>)))"
      using inv by (auto simp: m)
  qed
  have send: "\<And>devices jids. triple
      (\<lambda>s. (\<forall>js. Inr jids = Inr js \<longrightarrow> d \<in> set js \<longrightarrow> markedIn (senderKeyMap s) d) \<and> ?G s)
      (andThen (sendToParticipants env ctx devices jids) (\<lambda>_. succeed ())) (\<lambda>r. ?G)"
  proof -
    fix devices jids
    have w: "within (\<lambda>s s' :: 'x RelayState_scheme. senderKeyMap s' = senderKeyMap s)
        (encryptsOnly jids) (sendToParticipants env ctx devices jids)"
      using sendToParticipants_keeps_map[of ctx jids env devices] assms
      by (simp only: if_True)
    have keep: "triple (\<lambda>s :: 'x RelayState_scheme. markedIn (senderKeyMap s) d)
        (sendToParticipants env ctx devices jids) (\<lambda>r s. markedIn (senderKeyMap s) d)"
      by (rule triple_of_within[OF w]) simp
    have "triple
      (\<lambda>s. (\<forall>js. Inr jids = Inr js \<longrightarrow> d \<in> set js \<longrightarrow> markedIn (senderKeyMap s) d) \<and> ?G s)
      (sendToParticipants env ctx devices jids) (\<lambda>r. ?G)"
    proof (cases "d \<in> set jids")
      case True
      show ?thesis
        by (rule triple_weaken[OF keep]) (use True in auto)
    next
      case False
      have w': "within (\<lambda>s s' :: 'x RelayState_scheme. senderKeyMap s' = senderKeyMap s)
          (encryptsElsewhere d) (sendToParticipants env ctx devices jids)"
        by (rule within_weaken[OF w]) (auto intro: encryptsOnly_elsewhere[OF False])
      show ?thesis
        by (rule triple_weaken[OF triple_disj[OF triple_grown[OF w'] keep]]) auto
    qed
    then show "triple
      (\<lambda>s. (\<forall>js. Inr jids = Inr js \<longrightarrow> d \<in> set js \<longrightarrow> markedIn (senderKeyMap s) d) \<and> ?G s)
      (andThen (sendToParticipants env ctx devices jids) (\<lambda>_. succeed ())) (\<lambda>r. ?G)"
      by (rule triple_andThen) (auto intro: triple_succeed)
  qed
  show ?thesis
    unfolding sendBlock_def
    apply (rule triple_andThen[OF usync])
     apply assumption
    apply (rule triple_andThen[OF mark])
     apply simp
    apply (rule send)
    done
qed

lemma relayInBlocks_marks:
  fixes ctx :: RelayContext
  assumes "isGroup ctx" and "\<not> isStatus ctx"
  shows "triple
     (\<lambda>s :: 'x RelayState_scheme.
        grown (encryptsElsewhere d) t s \<or> markedInStore (ctxJid ctx) d s)
     (relayInBlocks env ctx useCache participantsList)
     (\<lambda>r s. \<not> isl r \<longrightarrow> grown (encryptsElsewhere d) t s \<or> markedInStore (ctxJid ctx) d s)"
proof -
  let ?g = "ctxJid ctx"
  let ?G = "\<lambda>s :: 'x RelayState_scheme.
        grown (encryptsElsewhere d) t s \<or> markedInStore ?g d s"
  let ?J = "\<lambda>s :: 'x RelayState_scheme.
        grown (encryptsElsewhere d) t s \<or> markedIn (senderKeyMap s) d"
  have read: "triple ?G (readSenderKeyMemory ?g)
      (\<lambda>r s. (\<forall>memory. r = Inr memory \<longrightarrow> (markedInStore ?g d s \<longleftrightarrow> markedIn memory d))
         \<and> ?G s)"
    by (rule tripleI)
      (auto simp: readSenderKeyMemory_result markedInStore_read intro: grown_emit)
  have setMap: "\<And>memory. triple
      (\<lambda>s. (\<forall>m. Inr memory = Inr m \<longrightarrow> (markedInStore ?g d s \<longleftrightarrow> markedIn m d)) \<and> ?G s)
      (\<lambda>s. (Inr (), s\<lparr>senderKeyMap := memory\<rparr>)) (\<lambda>r. ?J)"
    by (rule tripleI) auto
  have blocks: "triple ?J
      (allOf (map (sendBlock env ctx useCache)
         (chunksOf (participantBlockSize env) participantsList))) (\<lambda>r. ?J)"
  proof (rule triple_allOf_invariant)
    fix m :: "('x RelayState_ext, unit) action"
    assume "m \<in> set (map (sendBlock env ctx useCache)
         (chunksOf (participantBlockSize env) participantsList))"
    then obtain chunk where m: "m = sendBlock env ctx useCache chunk"
      by auto
    show "triple ?J m (\<lambda>r. ?J)"
      unfolding m by (rule sendBlock_marks) (use assms in simp)
  qed
  have stored: "triple ?J (\<lambda>s. writeSenderKeyMemory ?g (senderKeyMap s) s) (\<lambda>r. ?G)"
    by (rule tripleI)
      (auto simp: writeSenderKeyMemory_result markedInStore_written intro: grown_emit)
  show ?thesis
    unfolding relayInBlocks_def
    apply (simp only: assms(2) not_False_eq_True if_True if_False)
    apply (rule triple_andThen[OF read])
     apply simp
    apply (rule triple_andThen[OF setMap])
     apply simp
    apply (rule triple_andThen[OF blocks])
     apply simp
    apply (rule triple_andThen[OF stored])
     apply simp
    apply (rule triple_succeed)
    apply simp
    done
qed
text \<open>The ways of a relay to a group that is not the status broadcast.\<close>

lemma relayMessageBody_group_cases:
  fixes env jid message options
  defines "body \<equiv> (relayMessageBody env jid message options
                      :: ('x RelayState_ext, string) action)"
  assumes "jidDecode (waBinary env) jid = Some decoded"
    and "server decoded = ''g.us''" and "jid \<noteq> ''status@broadcast''"
  obtains (failed) "body = throw TypeError"
  | (override) ctx devices where "isGroup ctx" "\<not> isStatus ctx" "ctxJid ctx = jid"
      "body = sendToParticipants env ctx devices []"
  | (blocks) ctx useCache participantsList where "isGroup ctx" "\<not> isStatus ctx"
      "ctxJid ctx = jid" "body = relayInBlocks env ctx useCache participantsList"
  | (atOnce) ctx useCache participantsList where "isGroup ctx" "\<not> isStatus ctx"
      "ctxJid ctx = jid" "body = relayAtOnce env ctx useCache participantsList"
proof (cases "credsMe env")
  case None
  then have "body = throw TypeError"
    by (simp add: body_def relayMessageBody_def)
  then show ?thesis by (rule failed)
next
  case (Some creds)
  obtain myId myLid where creds: "credsMe env = Some (myId, myLid)"
    using Some by (cases creds) auto
  let ?ctx = "relayContext env jid message options myId decoded"
  have ctx: "isGroup ?ctx" "\<not> isStatus ?ctx" "ctxJid ?ctx = jid"
    using assms(3,4) by (simp_all add: relayContext_def)
  show ?thesis
  proof (cases "participant options")
    case (Some participantJid)
    show ?thesis
    proof (cases "jidDecode (waBinary env) participantJid")
      case None
      then have "body = throw TypeError"
        using creds assms(2) Some by (simp add: body_def relayMessageBody_def Let_def)
      then show ?thesis by (rule failed)
    next
      case (Some target)
      have "body = sendToParticipants env ?ctx [\<lparr> user = user target, device = device target \<rparr>] []"
        using creds assms(2,3,4) \<open>participant options = Some participantJid\<close> Some
        by (simp add: body_def relayMessageBody_def Let_def)
      with ctx show ?thesis by (rule override)
    qed
  next
    case None
    let ?list = "relayParticipantsList env jid options True False"
    let ?useCache = "useUserDevicesCache options \<noteq> Some False"
    show ?thesis
    proof (cases "length ?list > participantBlockSize env")
      case True
      have "body = relayInBlocks env ?ctx ?useCache ?list"
        using creds assms(2,3,4) None True
        by (simp add: body_def relayMessageBody_def Let_def)
      with ctx show ?thesis by (rule blocks)
    next
      case False
      have "body = relayAtOnce env ?ctx ?useCache ?list"
        using creds assms(2,3,4) None False
        by (simp add: body_def relayMessageBody_def Let_def)
      with ctx show ?thesis by (rule atOnce)
    qed
  qed
qed

lemma relayMessageBody_skips_marked:
  assumes "jidDecode (waBinary env) jid = Some decoded"
    and "server decoded = ''g.us''" and "jid \<noteq> ''status@broadcast''"
  shows "triple
     (\<lambda>s :: 'x RelayState_scheme. markedInStore jid d s \<and> grown (encryptsElsewhere d) t s)
     (relayMessageBody env jid message options)
     (\<lambda>r s. markedInStore jid d s \<and> grown (encryptsElsewhere d) t s)"
proof (rule relayMessageBody_group_cases
    [where ?'x = 'x and message = message and options = options, OF assms])
  assume failed: "(relayMessageBody env jid message options
      :: ('x RelayState_ext, string) action) = throw TypeError"
  show ?thesis
    unfolding failed by (rule triple_throw)
next
  fix ctx :: RelayContext and devices
  assume ctx: "isGroup ctx" "\<not> isStatus ctx" "ctxJid ctx = jid"
    and body: "(relayMessageBody env jid message options
      :: ('x RelayState_ext, string) action) = sendToParticipants env ctx devices []"
  show ?thesis
    unfolding body
    using sendToParticipants_skips_marked[of ctx jid d "[]" t env devices] ctx
    by simp
next
  fix ctx :: RelayContext and useCache participantsList
  assume ctx: "isGroup ctx" "\<not> isStatus ctx" "ctxJid ctx = jid"
    and body: "(relayMessageBody env jid message options
      :: ('x RelayState_ext, string) action) = relayInBlocks env ctx useCache participantsList"
  show ?thesis
    unfolding body
    using relayInBlocks_skips_marked[OF ctx(1,2), of d t env useCache participantsList]
    by (simp add: ctx(3))
next
  fix ctx :: RelayContext and useCache participantsList
  assume ctx: "isGroup ctx" "\<not> isStatus ctx" "ctxJid ctx = jid"
    and body: "(relayMessageBody env jid message options
      :: ('x RelayState_ext, string) action) = relayAtOnce env ctx useCache participantsList"
  show ?thesis
    unfolding body
    using relayAtOnce_skips_marked[OF ctx(1,2), of d t env useCache participantsList]
    by (simp add: ctx(3))
qed

lemma relayMessageBody_marks:
  assumes "jidDecode (waBinary env) jid = Some decoded"
    and "server decoded = ''g.us''" and "jid \<noteq> ''status@broadcast''"
  shows "triple
     (\<lambda>s :: 'x RelayState_scheme. grown (encryptsElsewhere d) t s \<or> markedInStore jid d s)
     (relayMessageBody env jid message options)
     (\<lambda>r s. \<not> isl r \<longrightarrow> grown (encryptsElsewhere d) t s \<or> markedInStore jid d s)"
proof (rule relayMessageBody_group_cases
    [where ?'x = 'x and message = message and options = options, OF assms])
  assume failed: "(relayMessageBody env jid message options
      :: ('x RelayState_ext, string) action) = throw TypeError"
  show ?thesis
    unfolding failed by (rule triple_throw) simp
next
  fix ctx :: RelayContext and devices
  assume ctx: "isGroup ctx" "\<not> isStatus ctx" "ctxJid ctx = jid"
    and body: "(relayMessageBody env jid message options
      :: ('x RelayState_ext, string) action) = sendToParticipants env ctx devices []"
  have "triple
     (\<lambda>s :: 'x RelayState_scheme. grown (encryptsElsewhere d) t s \<or> markedInStore jid d s)
     (sendToParticipants env ctx devices [])
     (\<lambda>r s. grown (encryptsElsewhere d) t s \<or> markedInStore jid d s)"
    by (rule triple_weaken[OF sendToParticipants_marks_first[of ctx jid d t "[]" env devices]])
      (use ctx in auto)
  then show ?thesis
    unfolding body by (rule triple_weaken) auto
next
  fix ctx :: RelayContext and useCache participantsList
  assume ctx: "isGroup ctx" "\<not> isStatus ctx" "ctxJid ctx = jid"
    and body: "(relayMessageBody env jid message options
      :: ('x RelayState_ext, string) action) = relayInBlocks env ctx useCache participantsList"
  show ?thesis
    unfolding body
    using relayInBlocks_marks[OF ctx(1,2), of d t env useCache participantsList]
    by (simp add: ctx(3))
next
  fix ctx :: RelayContext and useCache participantsList
  assume ctx: "isGroup ctx" "\<not> isStatus ctx" "ctxJid ctx = jid"
    and body: "(relayMessageBody env jid message options
      :: ('x RelayState_ext, string) action) = relayAtOnce env ctx useCache participantsList"
  have "triple
     (\<lambda>s :: 'x RelayState_scheme. grown (encryptsElsewhere d) t s \<or> markedInStore jid d s)
     (relayAtOnce env ctx useCache participantsList)
     (\<lambda>r s. grown (encryptsElsewhere d) t s \<or> markedInStore jid d s)"
    using relayAtOnce_marks[OF ctx(1,2), of d t env useCache participantsList]
    by (simp add: ctx(3))
  then show ?thesis
    unfolding body by (rule triple_weaken) auto
qed

lemma markedInStore_enterRelay [simp]:
  "markedInStore g d (enterRelay s) = markedInStore g d s"
  by (simp add: markedInStore_def)

lemma markedInStore_leaveRelay [simp]:
  "markedInStore g d (leaveRelay s) = markedInStore g d s"
  by (simp add: markedInStore_def)

lemma grown_enterRelay [simp]: "grown Ev t (enterRelay s) = grown Ev t s"
  by (simp add: grown_def)

lemma grown_leaveRelay [simp]: "grown Ev t (leaveRelay s) = grown Ev t s"
  by (simp add: grown_def)
text \<open>The definitions a run of \<open>relayMessage\<close> on a concrete socket unfolds.\<close>

lemmas run_defs =
  relayMessage_def relayMessageBody_def relayInBlocks_def relayAtOnce_def enterRelay_def
  leaveRelay_def relayContext_def relayParticipantsList_def groupParticipants_def
  participantBlockSize_def DEFAULT_PARTICIPANT_BLOCK_SIZE_def sendBlock_def chunksOf.simps
  sendToParticipants_def transaction_def stampExtraAttrs_def messageHash_def getMediaType_def
  getMessageType_def groupDispatch_def fetchGroupData_def senderKeyMsg_def meMsg_def
  directDispatch_def buildStanza_def spreadAttrs_def setAttr_def getAttr_def msgIdOrNew_def
  readSenderKeyMemory_def writeSenderKeyMemory_def getUSyncDevices_def cacheDevices_def
  createParticipantNodes_def emitAll_def
  assertSessions_def uniqueInOrder_def keysGetSessions_def doQuery_def doSendNode_def
  injectE2ESessions_def addVerified_def setAdd_def prekeyQuery_def
  andThen_def succeed_def throw_def fromResult_def emit_def both_def truthyString_def
  Let_def update_conv'
  exampleEnv_def exampleWABinary_def exampleRepository_def exampleMessage_def noOptions_def
  initialState_def blockEnv_def failingEnv_def
  encryptionsFor_def markedInStore_def markedIn_def

text \<open>
  C2, as the code has it. In a relay to a group, every encryption asked for a device is
  that of the sender-key distribution message. When a relay to a group returns without
  an error and has asked for an encryption for the device \<open>d\<close>, \<open>d\<close> is marked in
  the sender-key memory stored for the group when it returns. And a relay to the group
  from a state in which \<open>d\<close> is marked in the memory stored for the group, whatever
  its message and options, and whether it returns or throws, asks for no encryption for
  \<open>d\<close> and leaves \<open>d\<close> marked. The blocks of a split send run one after the other
  here.
\<close>

theorem relayMessage_sender_key_once:
  assumes "jidDecode (waBinary env) jid = Some decoded"
    and "server decoded = ''g.us''" and "jid \<noteq> ''status@broadcast''"
  shows "(relayMessage env jid message options s = (Inr sent, s')
          \<and> encryptionsFor d (trace s') \<noteq> encryptionsFor d (trace s) \<longrightarrow>
            markedInStore jid d s')
     \<and> (markedInStore jid d u \<longrightarrow>
          encryptionsFor d (trace (snd (relayMessage env jid message' options' u))) =
            encryptionsFor d (trace u)
          \<and> markedInStore jid d (snd (relayMessage env jid message' options' u)))"
proof (intro conjI impI)
  assume run: "relayMessage env jid message options s = (Inr sent, s')
      \<and> encryptionsFor d (trace s') \<noteq> encryptionsFor d (trace s)"
  obtain r s1 where body: "relayMessageBody env jid message options (enterRelay s) = (r, s1)"
    by (cases "relayMessageBody env jid message options (enterRelay s)") auto
  have r: "r = Inr sent" and s': "s' = leaveRelay s1"
    using run body by (simp_all add: relayMessage_def)
  have start: "grown (encryptsElsewhere d) (trace s) (enterRelay s)
      \<or> markedInStore jid d (enterRelay s)"
    by (simp add: grown_start)
  have "\<not> isl r \<longrightarrow> grown (encryptsElsewhere d) (trace s) s1 \<or> markedInStore jid d s1"
    using tripleD[OF relayMessageBody_marks[OF assms] start body] .
  then have "grown (encryptsElsewhere d) (trace s) s' \<or> markedInStore jid d s'"
    using r s' by simp
  moreover have "\<not> grown (encryptsElsewhere d) (trace s) s'"
    using run grown_encryptionsFor[of d "trace s" s'] by auto
  ultimately show "markedInStore jid d s'"
    by simp
next
  assume marked: "markedInStore jid d u"
  obtain r u1 where body: "relayMessageBody env jid message' options' (enterRelay u) = (r, u1)"
    by (cases "relayMessageBody env jid message' options' (enterRelay u)") auto
  have start: "markedInStore jid d (enterRelay u)
      \<and> grown (encryptsElsewhere d) (trace u) (enterRelay u)"
    using marked by (simp add: grown_start)
  have kept: "markedInStore jid d u1 \<and> grown (encryptsElsewhere d) (trace u) u1"
    using tripleD[OF relayMessageBody_skips_marked[OF assms] start body] .
  have after: "snd (relayMessage env jid message' options' u) = leaveRelay u1"
    using body by (simp add: relayMessage_def)
  show "encryptionsFor d (trace (snd (relayMessage env jid message' options' u))) =
      encryptionsFor d (trace u)"
    unfolding after using kept grown_encryptionsFor[of d "trace u" "leaveRelay u1"] by simp
  show "markedInStore jid d (snd (relayMessage env jid message' options' u))"
    unfolding after using kept by simp
qed

text \<open>
  On a new socket, a relay to the group \<open>g1\<close> of alice and bob sends the sender key
  to alice's device and marks it; a second relay from the state the first one leaves
  asks for no further encryption for alice.
\<close>

lemma exampleRun_first:
  "fst (relayMessage exampleEnv ''g1@g.us'' exampleMessage noOptions initialState) = Inr ''ID1''"
  by (simp add: run_defs)

lemma exampleRun_encryptions:
  "encryptedJids (trace (snd (relayMessage exampleEnv ''g1@g.us'' exampleMessage noOptions
      initialState))) = [''alice@s.whatsapp.net'', ''bob@s.whatsapp.net'']"
  by (simp add: run_defs)

theorem relayMessage_sender_key_once_witness:
  "jidDecode (waBinary exampleEnv) ''g1@g.us'' =
       Some \<lparr> user = ''g1'', device = None, server = ''g.us'' \<rparr>
   \<and> fst (relayMessage exampleEnv ''g1@g.us'' exampleMessage noOptions initialState) =
       Inr ''ID1''
   \<and> encryptionsFor ''alice@s.whatsapp.net'' (trace initialState) = 0
   \<and> encryptionsFor ''alice@s.whatsapp.net''
       (trace (snd (relayMessage exampleEnv ''g1@g.us'' exampleMessage noOptions
          initialState))) = 1
   \<and> markedInStore ''g1@g.us'' ''alice@s.whatsapp.net''
       (snd (relayMessage exampleEnv ''g1@g.us'' exampleMessage noOptions initialState))
   \<and> encryptionsFor ''alice@s.whatsapp.net''
       (trace (snd (relayMessage exampleEnv ''g1@g.us'' exampleMessage noOptions
          (snd (relayMessage exampleEnv ''g1@g.us'' exampleMessage noOptions
             initialState))))) = 1"
proof -
  let ?decoded = "\<lparr> user = ''g1'', device = None, server = ''g.us'' \<rparr>"
  let ?run = "relayMessage exampleEnv ''g1@g.us'' exampleMessage noOptions initialState"
  have h1: "jidDecode (waBinary exampleEnv) ''g1@g.us'' = Some ?decoded"
    by (simp add: exampleEnv_def exampleWABinary_def)
  have h2: "server ?decoded = ''g.us''"
    by simp
  have h3: "''g1@g.us'' \<noteq> ''status@broadcast''"
    by simp
  have before: "encryptionsFor ''alice@s.whatsapp.net'' (trace initialState) = 0"
    by (simp add: encryptionsFor_def initialState_def)
  have after: "encryptionsFor ''alice@s.whatsapp.net'' (trace (snd ?run)) = 1"
    by (simp add: encryptionsFor_def exampleRun_encryptions)
  have run: "?run = (Inr ''ID1'', snd ?run)"
    using exampleRun_first by (metis prod.collapse)
  note once = relayMessage_sender_key_once[OF h1 h2 h3,
      of exampleMessage noOptions initialState "''ID1''" "snd ?run" "''alice@s.whatsapp.net''"
        "snd ?run" exampleMessage noOptions]
  have marked: "markedInStore ''g1@g.us'' ''alice@s.whatsapp.net'' (snd ?run)"
    using once run before after by simp
  have again: "encryptionsFor ''alice@s.whatsapp.net''
       (trace (snd (relayMessage exampleEnv ''g1@g.us'' exampleMessage noOptions (snd ?run)))) = 1"
    using once marked after by simp
  show ?thesis
    using h1 exampleRun_first before after marked again by blast
qed

text \<open>
  When the device query for bob fails, a split relay to \<open>g1\<close> throws after the block of
  alice has sent its stanza with the sender key for alice's device; alice's device is
  not marked in the memory the call leaves, and the next relay to \<open>g1\<close> asks for the
  encryption of the sender key for alice's device again.
\<close>

theorem relayMessage_failed_block_redistributes:
  "fst (relayMessage failingEnv ''g1@g.us'' exampleMessage noOptions initialState) =
       Inl (Boom ''timed out'')
   \<and> encryptedJids (trace (snd (relayMessage failingEnv ''g1@g.us'' exampleMessage noOptions
          initialState))) = [''alice@s.whatsapp.net'']
   \<and> length (sentStanzas (trace (snd (relayMessage failingEnv ''g1@g.us'' exampleMessage
          noOptions initialState)))) = 1
   \<and> \<not> markedInStore ''g1@g.us'' ''alice@s.whatsapp.net''
          (snd (relayMessage failingEnv ''g1@g.us'' exampleMessage noOptions initialState))
   \<and> encryptedJids (trace (snd (relayMessage blockEnv ''g1@g.us'' exampleMessage noOptions
          (snd (relayMessage failingEnv ''g1@g.us'' exampleMessage noOptions initialState))))) =
       [''alice@s.whatsapp.net'', ''alice@s.whatsapp.net'', ''bob@s.whatsapp.net'']"
  by (simp add: run_defs)
subsection \<open>One stanza for each dispatch\<close>














end
